theory Spec2Isabelle
  imports Main "HOL-Library.Multiset"
begin

section \<open>Data model\<close>

text \<open>
  The C++ \<^verbatim>\<open>struct Vertex\<close>. The field \<^verbatim>\<open>id\<close> is called \<open>vertex_id\<close> here, since
  \<open>id\<close> is the identity function of HOL. \<^verbatim>\<open>color\<close> is \<open>-1\<close> for an uncolored vertex.
  Neighbor ids are indices into the vertex vector, so they are natural numbers here; the
  \<^verbatim>\<open>int\<close> fields that hold counts and colors are unbounded integers (every count is
  bounded by the size of a container).

  The graph is the \<^verbatim>\<open>std::vector<Vertex>\<close> with \<open>num_vertices + 1\<close> entries; entry 0 is
  unused. A pointer \<^verbatim>\<open>Vertex*\<close> into the vector is the index of the entry. Indexing a
  vector out of range is undefined behaviour in C++; the properties below are stated for
  graphs whose indices are valid.
\<close>

record Vertex =
  vertex_id :: int
  degree :: int
  color :: int
  neighbors :: "nat list"
  heuristic_value :: int

text \<open>What a loop body tells its loop: leave it (\<^verbatim>\<open>break\<close>) or go round again.\<close>

datatype 'a loop_ctl = Break 'a | Continue 'a

text \<open>What a driver leaves behind: the vertex vector, the returned number of colors, and
  whether the warning of the internal-consistency branch was printed.\<close>

record coloring_result =
  res_vertices :: "Vertex list"
  res_colors :: int
  res_warned :: bool

section \<open>Feasibility check\<close>

fun isColorValid_scan :: "nat list \<Rightarrow> int \<Rightarrow> Vertex list \<Rightarrow> bool" where
  "isColorValid_scan [] c all_vertices = True"
| "isColorValid_scan (neighbor_id # rest) c all_vertices =
     (if color (all_vertices ! neighbor_id) = c then False
      else isColorValid_scan rest c all_vertices)"

definition isColorValid :: "Vertex \<Rightarrow> int \<Rightarrow> Vertex list \<Rightarrow> bool" where
  "isColorValid current_vertex c all_vertices =
     isColorValid_scan (neighbors current_vertex) c all_vertices"

section \<open>Largest uncolored degree\<close>

text \<open>The loop of \<^verbatim>\<open>find_max_degree_uncolored_vertex\<close> over \<open>i = 1..num_vertices\<close>, with the
  pair \<open>(max_degree_vertex, max_degree)\<close> as its state; \<open>None\<close> is \<^verbatim>\<open>nullptr\<close>.\<close>

fun find_max_scan :: "Vertex list \<Rightarrow> nat list \<Rightarrow> nat option \<times> int \<Rightarrow> nat option \<times> int" where
  "find_max_scan vertices [] st = st"
| "find_max_scan vertices (i # rest) (max_degree_vertex, max_degree) =
     (if color (vertices ! i) = -1 then
        (if max_degree_vertex = None \<or> degree (vertices ! i) > max_degree
         then find_max_scan vertices rest (Some i, degree (vertices ! i))
         else find_max_scan vertices rest (max_degree_vertex, max_degree))
      else find_max_scan vertices rest (max_degree_vertex, max_degree))"

definition find_max_degree_uncolored_vertex :: "Vertex list \<Rightarrow> nat \<Rightarrow> nat option" where
  "find_max_degree_uncolored_vertex vertices num_vertices =
     fst (find_max_scan vertices [1..<Suc num_vertices] (None, -1))"

section \<open>The generic greedy driver (IDO and DSATUR)\<close>

text \<open>The reset loop at the entry of every driver.\<close>

definition reset_colors :: "Vertex list \<Rightarrow> nat \<Rightarrow> Vertex list" where
  "reset_colors vertices num_vertices =
     fold (\<lambda>i vs. vs[i := (vs ! i)\<lparr>color := -1\<rparr>]) [1..<Suc num_vertices] vertices"

text \<open>
  \<^verbatim>\<open>std::sort\<close> is library code. The driver takes it as the parameter \<open>srt\<close>, and the
  theorems assume what the C++ standard promises of it: for a comparator that is a strict
  weak ordering the result is a permutation of the input in which no element is
  followed by one that compares before it, and the result depends on the comparator only
  through the comparisons of elements of the range. The order of equivalent elements is
  not promised.
\<close>

definition strict_weak_order :: "('a \<Rightarrow> 'a \<Rightarrow> bool) \<Rightarrow> bool" where
  "strict_weak_order cmp \<longleftrightarrow>
     (\<forall>a. \<not> cmp a a) \<and>
     (\<forall>a b c. cmp a b \<and> cmp b c \<longrightarrow> cmp a c) \<and>
     (\<forall>a b c. \<not> cmp a b \<and> \<not> cmp b c \<longrightarrow> \<not> cmp a c)"

definition std_sort_contract :: "(('a \<Rightarrow> 'a \<Rightarrow> bool) \<Rightarrow> 'a list \<Rightarrow> 'a list) \<Rightarrow> bool" where
  "std_sort_contract srt \<longleftrightarrow>
     (\<forall>cmp xs. strict_weak_order cmp \<longrightarrow>
        mset (srt cmp xs) = mset xs \<and> sorted_wrt (\<lambda>a b. \<not> cmp b a) (srt cmp xs)) \<and>
     (\<forall>cmp cmp' xs. (\<forall>a \<in> set xs. \<forall>b \<in> set xs. cmp a b = cmp' a b) \<longrightarrow>
        srt cmp xs = srt cmp' xs)"

text \<open>Two sorting functions that meet the contract: insertion sort that keeps the order
  of equivalent elements, and insertion sort that reverses it.\<close>

fun insert_stable :: "('a \<Rightarrow> 'a \<Rightarrow> bool) \<Rightarrow> 'a \<Rightarrow> 'a list \<Rightarrow> 'a list" where
  "insert_stable cmp x [] = [x]"
| "insert_stable cmp x (y # ys) =
     (if cmp y x then y # insert_stable cmp x ys else x # y # ys)"

fun stable_sort :: "('a \<Rightarrow> 'a \<Rightarrow> bool) \<Rightarrow> 'a list \<Rightarrow> 'a list" where
  "stable_sort cmp [] = []"
| "stable_sort cmp (x # xs) = insert_stable cmp x (stable_sort cmp xs)"



text \<open>The heuristic of one vertex. DSATUR: the size of the \<^verbatim>\<open>std::set\<close> of the colors of
  the colored neighbors. IDO: the counter of the colored neighbors.\<close>

definition dsatur_heuristic :: "Vertex list \<Rightarrow> nat list \<Rightarrow> int" where
  "dsatur_heuristic vertices nbs =
     int (card (fold (\<lambda>neighbor_id distinct_neighbor_colors.
                        if color (vertices ! neighbor_id) \<noteq> -1
                        then insert (color (vertices ! neighbor_id)) distinct_neighbor_colors
                        else distinct_neighbor_colors) nbs {}))"

definition ido_heuristic :: "Vertex list \<Rightarrow> nat list \<Rightarrow> int" where
  "ido_heuristic vertices nbs =
     fold (\<lambda>neighbor_id h. if color (vertices ! neighbor_id) \<noteq> -1 then h + 1 else h) nbs 0"

definition compute_heuristic :: "string \<Rightarrow> Vertex list \<Rightarrow> nat \<Rightarrow> int" where
  "compute_heuristic alg_name vertices v_ptr =
     (if alg_name = ''DSATUR'' then dsatur_heuristic vertices (neighbors (vertices ! v_ptr))
      else ido_heuristic vertices (neighbors (vertices ! v_ptr)))"

text \<open>The selection scan over \<^verbatim>\<open>uncolored_vertices_ptrs\<close>: it stores the heuristic of each
  vertex in the vector and keeps the best vertex so far.\<close>

fun select_best :: "string \<Rightarrow> nat list \<Rightarrow> Vertex list \<times> nat option \<Rightarrow> Vertex list \<times> nat option" where
  "select_best alg_name [] st = st"
| "select_best alg_name (v_ptr # rest) (vertices, best) =
     (let vertices' = vertices[v_ptr := (vertices ! v_ptr)
                         \<lparr>heuristic_value := compute_heuristic alg_name vertices v_ptr\<rparr>]
      in select_best alg_name rest
           (vertices',
            (case best of
               None \<Rightarrow> Some v_ptr
             | Some b \<Rightarrow>
                 if heuristic_value (vertices' ! v_ptr) > heuristic_value (vertices' ! b) \<or>
                    (heuristic_value (vertices' ! v_ptr) = heuristic_value (vertices' ! b) \<and>
                     degree (vertices' ! v_ptr) > degree (vertices' ! b))
                 then Some v_ptr else Some b)))"

text \<open>The scan of the palette for the first valid color; \<open>-1\<close> when there is none.\<close>

fun first_valid_color :: "Vertex \<Rightarrow> int list \<Rightarrow> Vertex list \<Rightarrow> int" where
  "first_valid_color v [] vertices = -1"
| "first_valid_color v (c # rest) vertices =
     (if isColorValid v c vertices then c else first_valid_color v rest vertices)"

record greedy_state =
  g_vertices :: "Vertex list"
  uncolored_vertices_ptrs :: "nat list"
  color_palette :: "int list"
  next_available_color_idx :: int

text \<open>Step 4 of the main loop: the selected vertex \<open>best\<close> gets the first valid color of
  the palette, or a new color when there is none, and leaves the pointer list.\<close>

definition greedy_assign :: "greedy_state \<Rightarrow> Vertex list \<Rightarrow> nat \<Rightarrow> greedy_state" where
  "greedy_assign s vs best =
     (let found = first_valid_color (vs ! best) (color_palette s) vs;
          chosen_color = (if found = -1 then next_available_color_idx s else found);
          palette = (if found = -1 then color_palette s @ [chosen_color] else color_palette s);
          next_idx = (if found = -1 then next_available_color_idx s + 1
                      else next_available_color_idx s)
      in \<lparr>g_vertices = vs[best := (vs ! best)\<lparr>color := chosen_color\<rparr>],
          uncolored_vertices_ptrs = removeAll best (uncolored_vertices_ptrs s),
          color_palette = palette,
          next_available_color_idx = next_idx\<rparr>)"

text \<open>One iteration of the main loop: the selection scan, the warning branch, the
  assignment.\<close>

definition greedy_iteration :: "string \<Rightarrow> greedy_state \<Rightarrow> greedy_state loop_ctl" where
  "greedy_iteration alg_name s =
     (case select_best alg_name (uncolored_vertices_ptrs s) (g_vertices s, None) of
        (vs, None) \<Rightarrow> Break (s\<lparr>g_vertices := vs\<rparr>)
      | (vs, Some best) \<Rightarrow> Continue (greedy_assign s vs best))"

function greedy_loop :: "string \<Rightarrow> greedy_state \<Rightarrow> greedy_state \<times> bool" where
  "greedy_loop alg_name s =
     (if uncolored_vertices_ptrs s = [] then (s, False)
      else (case greedy_iteration alg_name s of
              Break s' \<Rightarrow> (s', True)
            | Continue s' \<Rightarrow> greedy_loop alg_name s'))"
  by pat_completeness auto
termination greedy_loop
proof -
  have mono: "\<exists>b'. r = Some b' \<and> (b' = b \<or> b' \<in> set ptrs)"
    if "select_best alg ptrs (vs, Some b) = (vs', r)" for alg ptrs vs b vs' r
    using that
  proof (induction ptrs arbitrary: vs b)
    case Nil
    then show ?case by simp
  next
    case (Cons p ptrs)
    then show ?case by (simp add: Let_def split: if_splits) blast+
  qed
  have member: "b \<in> set ptrs"
    if "select_best alg ptrs (vs, None) = (vs', Some b)" for alg ptrs vs vs' b
    using that by (cases ptrs) (auto simp: Let_def dest: mono)
  have shrinks: "length (uncolored_vertices_ptrs s') < length (uncolored_vertices_ptrs s)"
    if "greedy_iteration alg s = Continue s'" for alg s s'
    using that
    by (auto simp: greedy_iteration_def greedy_assign_def Let_def length_removeAll_less
        split: prod.splits option.splits dest: member)
  show ?thesis
    by (relation "measure (\<lambda>(alg, s). length (uncolored_vertices_ptrs s))")
       (auto dest: shrinks)
qed

declare greedy_loop.simps [simp del]

text \<open>The state after the first vertex (the head of the sorted pointer list) has been
  colored with color 0 and removed from the list.\<close>

definition greedy_init ::
  "((nat \<Rightarrow> nat \<Rightarrow> bool) \<Rightarrow> nat list \<Rightarrow> nat list) \<Rightarrow> Vertex list \<Rightarrow> nat \<Rightarrow> nat \<times> greedy_state" where
  "greedy_init srt vertices0 num_vertices =
     (let vs = reset_colors vertices0 num_vertices;
          sorted_ptrs = srt (\<lambda>a b. degree (vs ! a) > degree (vs ! b)) [1..<Suc num_vertices];
          initial_vertex = sorted_ptrs ! 0
      in (initial_vertex,
          \<lparr>g_vertices = vs[initial_vertex := (vs ! initial_vertex)\<lparr>color := 0\<rparr>],
           uncolored_vertices_ptrs = removeAll initial_vertex sorted_ptrs,
           color_palette = [0],
           next_available_color_idx = 1\<rparr>))"

definition generic_greedy_coloring ::
  "((nat \<Rightarrow> nat \<Rightarrow> bool) \<Rightarrow> nat list \<Rightarrow> nat list) \<Rightarrow> Vertex list \<Rightarrow> nat \<Rightarrow> string \<Rightarrow> coloring_result" where
  "generic_greedy_coloring srt vertices0 num_vertices alg_name =
     (if [1..<Suc num_vertices] = []
      then \<lparr>res_vertices = reset_colors vertices0 num_vertices, res_colors = 0, res_warned = False\<rparr>
      else (case greedy_loop alg_name (snd (greedy_init srt vertices0 num_vertices)) of
              (s, w) \<Rightarrow> \<lparr>res_vertices = g_vertices s,
                         res_colors = next_available_color_idx s,
                         res_warned = w\<rparr>))"

definition IDO_coloring ::
  "((nat \<Rightarrow> nat \<Rightarrow> bool) \<Rightarrow> nat list \<Rightarrow> nat list) \<Rightarrow> Vertex list \<Rightarrow> nat \<Rightarrow> coloring_result" where
  "IDO_coloring srt vertices0 num_vertices =
     generic_greedy_coloring srt vertices0 num_vertices ''IDO''"

definition DSATUR_coloring ::
  "((nat \<Rightarrow> nat \<Rightarrow> bool) \<Rightarrow> nat list \<Rightarrow> nat list) \<Rightarrow> Vertex list \<Rightarrow> nat \<Rightarrow> coloring_result" where
  "DSATUR_coloring srt vertices0 num_vertices =
     generic_greedy_coloring srt vertices0 num_vertices ''DSATUR''"

section \<open>The recursive-largest-first driver (RLF)\<close>

text \<open>The loops that set \<^verbatim>\<open>forbidden_for_current_color[neighbor_id] = true\<close> for the
  neighbors of a vertex, and the counter of the neighbors of a vertex that are in the
  forbidden set.\<close>

definition mark_forbidden :: "bool list \<Rightarrow> nat list \<Rightarrow> bool list" where
  "mark_forbidden forbidden nbs = fold (\<lambda>neighbor_id f. f[neighbor_id := True]) nbs forbidden"

definition adj_in_U :: "bool list \<Rightarrow> nat list \<Rightarrow> int" where
  "adj_in_U forbidden nbs =
     fold (\<lambda>neighbor_of_vk current_adj_in_U.
             if forbidden ! neighbor_of_vk then current_adj_in_U + 1 else current_adj_in_U) nbs 0"

text \<open>The scan over \<open>k = 1..num_vertices\<close> inside the inner loop, with the vertex vector,
  \<open>v_j_candidate\<close> and \<open>max_adj_in_U\<close> as its state.\<close>

fun rlf_scan ::
  "bool list \<Rightarrow> nat list \<Rightarrow> Vertex list \<times> nat option \<times> int \<Rightarrow> Vertex list \<times> nat option \<times> int" where
  "rlf_scan forbidden [] st = st"
| "rlf_scan forbidden (k # rest) (vertices, v_j_candidate, max_adj_in_U) =
     (if color (vertices ! k) = -1 \<and> \<not> forbidden ! k then
        (let vertices' = vertices[k := (vertices ! k)
                            \<lparr>heuristic_value := adj_in_U forbidden (neighbors (vertices ! k))\<rparr>]
         in (case v_j_candidate of
               None \<Rightarrow> rlf_scan forbidden rest (vertices', Some k, heuristic_value (vertices' ! k))
             | Some j \<Rightarrow>
                 if heuristic_value (vertices' ! k) > max_adj_in_U \<or>
                    (heuristic_value (vertices' ! k) = max_adj_in_U \<and>
                     degree (vertices' ! k) > degree (vertices' ! j))
                 then rlf_scan forbidden rest (vertices', Some k, heuristic_value (vertices' ! k))
                 else rlf_scan forbidden rest (vertices', Some j, max_adj_in_U)))
      else rlf_scan forbidden rest (vertices, v_j_candidate, max_adj_in_U))"

text \<open>The inner \<^verbatim>\<open>while (true)\<close> loop, on the vertex vector, \<open>total_colored_vertices\<close> and the
  forbidden vector. It has no bound of its own, so it is a partial function: \<open>None\<close> is a
  loop that never ends.\<close>

partial_function (option) rlf_inner_loop ::
  "nat \<Rightarrow> int \<Rightarrow> Vertex list \<times> int \<times> bool list \<Rightarrow> (Vertex list \<times> int \<times> bool list) option" where
  "rlf_inner_loop num_vertices current_color st =
     (case st of (vertices, total_colored_vertices, forbidden) \<Rightarrow>
        (case rlf_scan forbidden [1..<Suc num_vertices] (vertices, None, -1) of
           (vs, None, m) \<Rightarrow> Some (vs, total_colored_vertices, forbidden)
         | (vs, Some j, m) \<Rightarrow>
             rlf_inner_loop num_vertices current_color
               (vs[j := (vs ! j)\<lparr>color := current_color\<rparr>],
                total_colored_vertices + 1,
                mark_forbidden forbidden (neighbors (vs ! j)))))"

declare rlf_inner_loop.simps [code]

record rlf_state =
  r_vertices :: "Vertex list"
  current_color :: int
  total_colored_vertices :: int

text \<open>One iteration of the outer loop: one color class.\<close>

definition rlf_class :: "nat \<Rightarrow> rlf_state \<Rightarrow> rlf_state loop_ctl option" where
  "rlf_class num_vertices s =
     (case find_max_degree_uncolored_vertex (r_vertices s) num_vertices of
        None \<Rightarrow> Some (Break s)
      | Some v_i \<Rightarrow>
          (let vs = (r_vertices s)[v_i := (r_vertices s ! v_i)\<lparr>color := current_color s\<rparr>];
               forbidden = mark_forbidden (replicate (num_vertices + 1) False) (neighbors (vs ! v_i))
           in (case rlf_inner_loop num_vertices (current_color s)
                       (vs, total_colored_vertices s + 1, forbidden) of
                 None \<Rightarrow> None
               | Some (vs', total', forbidden') \<Rightarrow>
                   Some (Continue \<lparr>r_vertices = vs',
                                   current_color = current_color s + 1,
                                   total_colored_vertices = total'\<rparr>))))"

partial_function (option) rlf_outer_loop :: "nat \<Rightarrow> rlf_state \<Rightarrow> (rlf_state \<times> bool) option" where
  "rlf_outer_loop num_vertices s =
     (if total_colored_vertices s < int num_vertices then
        (case rlf_class num_vertices s of
           None \<Rightarrow> None
         | Some (Break s') \<Rightarrow> Some (s', True)
         | Some (Continue s') \<Rightarrow> rlf_outer_loop num_vertices s')
      else Some (s, False))"

declare rlf_outer_loop.simps [code]

definition RLF_coloring :: "Vertex list \<Rightarrow> nat \<Rightarrow> coloring_result option" where
  "RLF_coloring vertices0 num_vertices =
     (case rlf_outer_loop num_vertices
             \<lparr>r_vertices = reset_colors vertices0 num_vertices,
              current_color = 0,
              total_colored_vertices = 0\<rparr> of
        None \<Rightarrow> None
      | Some (s, w) \<Rightarrow>
          Some \<lparr>res_vertices = r_vertices s, res_colors = current_color s, res_warned = w\<rparr>)"

section \<open>Well-formed graphs\<close>

text \<open>What the loader hands over: a vector with entries \<open>0..num_vertices\<close> whose neighbor
  ids are all in \<open>1..num_vertices\<close>, and a symmetric adjacency.\<close>

definition valid_indices :: "nat \<Rightarrow> Vertex list \<Rightarrow> bool" where
  "valid_indices num_vertices vs \<longleftrightarrow>
     length vs = Suc num_vertices \<and>
     (\<forall>u \<in> {1..num_vertices}. \<forall>v \<in> set (neighbors (vs ! u)). 1 \<le> v \<and> v \<le> num_vertices)"

definition symmetric_adjacency :: "nat \<Rightarrow> Vertex list \<Rightarrow> bool" where
  "symmetric_adjacency num_vertices vs \<longleftrightarrow>
     (\<forall>u \<in> {1..num_vertices}. \<forall>v \<in> set (neighbors (vs ! u)). u \<in> set (neighbors (vs ! v)))"

definition well_formed :: "nat \<Rightarrow> Vertex list \<Rightarrow> bool" where
  "well_formed num_vertices vs \<longleftrightarrow> valid_indices num_vertices vs \<and> symmetric_adjacency num_vertices vs"

text \<open>A vertex as the loader builds it from its adjacency list, and a graph from the
  adjacency lists of the vertices \<open>1..N\<close>.\<close>

definition mk_vertex :: "nat \<Rightarrow> nat list \<Rightarrow> Vertex" where
  "mk_vertex i nbs =
     \<lparr>vertex_id = int i, degree = int (length nbs), color = -1, neighbors = nbs,
      heuristic_value = 0\<rparr>"

definition mk_graph :: "nat list list \<Rightarrow> Vertex list" where
  "mk_graph adj = mk_vertex 0 [] # map (\<lambda>(i, nbs). mk_vertex i nbs) (zip [1..<Suc (length adj)] adj)"

section \<open>Predicates, invariants and example graphs used by the theorems\<close>

subsection \<open>The graph held by a vertex vector\<close>

definition graph_of :: "Vertex list \<Rightarrow> (int \<times> int \<times> nat list) list" where
  "graph_of vs = map (\<lambda>v. (vertex_id v, degree v, neighbors v)) vs"

subsection \<open>Invariants of the generic greedy driver\<close>

definition proper_partial :: "nat \<Rightarrow> Vertex list \<Rightarrow> bool" where
  "proper_partial n vs \<longleftrightarrow>
     (\<forall>u \<in> {1..n}. \<forall>v \<in> set (neighbors (vs ! u)).
        v \<noteq> u \<and> color (vs ! u) \<noteq> -1 \<longrightarrow> color (vs ! v) \<noteq> color (vs ! u))"

definition greedy_inv :: "nat \<Rightarrow> greedy_state \<Rightarrow> bool" where
  "greedy_inv n s \<longleftrightarrow>
     well_formed n (g_vertices s) \<and>
     distinct (uncolored_vertices_ptrs s) \<and>
     set (uncolored_vertices_ptrs s) = {i \<in> {1..n}. color (g_vertices s ! i) = -1} \<and>
     (\<exists>k. next_available_color_idx s = int k \<and> color_palette s = map int [0..<k]) \<and>
     (\<forall>i \<in> {1..n}. color (g_vertices s ! i) = -1 \<or>
          (0 \<le> color (g_vertices s ! i) \<and> color (g_vertices s ! i) < next_available_color_idx s)) \<and>
     (\<forall>c. 0 \<le> c \<and> c < next_available_color_idx s \<longrightarrow>
          (\<exists>i \<in> {1..n}. color (g_vertices s ! i) = c)) \<and>
     proper_partial n (g_vertices s)"

text \<open>What the assignment does, with the palette \<open>0..k-1\<close>: the chosen color.\<close>

definition chosen_color_of :: "greedy_state \<Rightarrow> Vertex list \<Rightarrow> nat \<Rightarrow> int" where
  "chosen_color_of s vs best =
     (let found = first_valid_color (vs ! best) (color_palette s) vs
      in if found = -1 then next_available_color_idx s else found)"

text \<open>The state in which the first vertex is assigned: nothing colored, an empty
  palette, the sorted pointer list.\<close>

definition greedy_start ::
  "((nat \<Rightarrow> nat \<Rightarrow> bool) \<Rightarrow> nat list \<Rightarrow> nat list) \<Rightarrow> Vertex list \<Rightarrow> nat \<Rightarrow> greedy_state" where
  "greedy_start srt vertices0 num_vertices =
     (let vs = reset_colors vertices0 num_vertices
      in \<lparr>g_vertices = vs,
          uncolored_vertices_ptrs =
            srt (\<lambda>a b. degree (vs ! a) > degree (vs ! b)) [1..<Suc num_vertices],
          color_palette = [],
          next_available_color_idx = 0\<rparr>)"

text \<open>A complete proper coloring of the graph \<open>vs0\<close> with the colors \<open>0..k-1\<close>, each of them
  used: what every driver leaves behind.\<close>

definition complete_coloring :: "nat \<Rightarrow> Vertex list \<Rightarrow> Vertex list \<Rightarrow> int \<Rightarrow> bool" where
  "complete_coloring n vs0 vs k \<longleftrightarrow>
     graph_of vs = graph_of vs0 \<and> 0 \<le> k \<and>
     (\<forall>i \<in> {1..n}. 0 \<le> color (vs ! i) \<and> color (vs ! i) < k) \<and>
     (\<forall>c. 0 \<le> c \<and> c < k \<longrightarrow> (\<exists>i \<in> {1..n}. color (vs ! i) = c)) \<and>
     proper_partial n vs"

text \<open>Every vertex with a color above 0 has a neighbor, other than itself, with the next
  lower color.\<close>

definition graded :: "nat \<Rightarrow> Vertex list \<Rightarrow> bool" where
  "graded n vs \<longleftrightarrow>
     (\<forall>i \<in> {1..n}. 1 \<le> color (vs ! i) \<longrightarrow>
        (\<exists>u \<in> set (neighbors (vs ! i)). u \<noteq> i \<and> color (vs ! u) = color (vs ! i) - 1))"

subsection \<open>The result of the scan for the largest uncolored degree\<close>

text \<open>What \<open>find_max_scan\<close> returns, from a state \<open>(m, d)\<close> in which \<open>d\<close> is the degree of the
  vertex \<open>m\<close>: the vertex found is \<open>m\<close> itself, or an uncolored vertex of the list that
  beats \<open>d\<close> and every uncolored vertex before it strictly, and no uncolored vertex of the
  list beats it.\<close>

definition find_max_post ::
  "Vertex list \<Rightarrow> nat list \<Rightarrow> nat option \<Rightarrow> int \<Rightarrow> nat option \<times> int \<Rightarrow> bool" where
  "find_max_post vs ns m d res \<longleftrightarrow>
     (case res of
        (None, d') \<Rightarrow> m = None \<and> (\<forall>i \<in> set ns. color (vs ! i) \<noteq> -1)
      | (Some v, d') \<Rightarrow>
          d' = degree (vs ! v) \<and>
          (\<forall>i \<in> set ns. color (vs ! i) = -1 \<longrightarrow> degree (vs ! i) \<le> d') \<and>
          (m \<noteq> None \<longrightarrow> d \<le> d') \<and>
          (m = Some v \<or>
           (\<exists>pre post. ns = pre @ v # post \<and> color (vs ! v) = -1 \<and> (m \<noteq> None \<longrightarrow> d < d') \<and>
               (\<forall>i \<in> set pre. color (vs ! i) = -1 \<longrightarrow> degree (vs ! i) < d'))))"

subsection \<open>Invariants of the RLF driver\<close>

definition colored_set :: "nat \<Rightarrow> Vertex list \<Rightarrow> nat set" where
  "colored_set n vs = {i \<in> {1..n}. color (vs ! i) \<noteq> -1}"

text \<open>While class \<open>c\<close> is built, every uncolored vertex has a neighbor of color \<open>c - 1\<close>.\<close>

definition blocked :: "nat \<Rightarrow> int \<Rightarrow> Vertex list \<Rightarrow> bool" where
  "blocked n c vs \<longleftrightarrow>
     (1 \<le> c \<longrightarrow> (\<forall>k \<in> {1..n}. color (vs ! k) = -1 \<longrightarrow>
                      (\<exists>u \<in> set (neighbors (vs ! k)). color (vs ! u) = c - 1)))"

definition rlf_inner_inv :: "nat \<Rightarrow> int \<Rightarrow> Vertex list \<Rightarrow> int \<Rightarrow> bool list \<Rightarrow> bool" where
  "rlf_inner_inv n c vs tot forbidden \<longleftrightarrow>
     well_formed n vs \<and> length forbidden = Suc n \<and> 0 \<le> c \<and>
     tot = int (card (colored_set n vs)) \<and>
     (\<forall>i \<in> {1..n}. color (vs ! i) = -1 \<or> (0 \<le> color (vs ! i) \<and> color (vs ! i) \<le> c)) \<and>
     (\<forall>k \<in> {1..n}. forbidden ! k \<longleftrightarrow>
          (\<exists>u \<in> {1..n}. color (vs ! u) = c \<and> k \<in> set (neighbors (vs ! u)))) \<and>
     (\<forall>c'. 0 \<le> c' \<and> c' \<le> c \<longrightarrow> (\<exists>i \<in> {1..n}. color (vs ! i) = c')) \<and>
     proper_partial n vs \<and> graded n vs \<and> blocked n c vs"

definition rlf_outer_inv :: "nat \<Rightarrow> rlf_state \<Rightarrow> bool" where
  "rlf_outer_inv n s \<longleftrightarrow>
     well_formed n (r_vertices s) \<and> 0 \<le> current_color s \<and>
     total_colored_vertices s = int (card (colored_set n (r_vertices s))) \<and>
     (\<forall>i \<in> {1..n}. color (r_vertices s ! i) = -1 \<or>
         (0 \<le> color (r_vertices s ! i) \<and> color (r_vertices s ! i) < current_color s)) \<and>
     (\<forall>c'. 0 \<le> c' \<and> c' < current_color s \<longrightarrow> (\<exists>i \<in> {1..n}. color (r_vertices s ! i) = c')) \<and>
     proper_partial n (r_vertices s) \<and> graded n (r_vertices s) \<and>
     blocked n (current_color s) (r_vertices s)"

subsection \<open>Validity of the colorings (claim C1)\<close>

text \<open>The result \<open>vs\<close> colors every vertex of the graph \<open>g\<close> and gives the two ends of every
  edge between two distinct vertices different colors.\<close>

definition valid_coloring :: "nat \<Rightarrow> Vertex list \<Rightarrow> Vertex list \<Rightarrow> bool" where
  "valid_coloring n g vs \<longleftrightarrow>
     (\<forall>u \<in> {1..n}. color (vs ! u) \<noteq> -1 \<and>
        (\<forall>v \<in> set (neighbors (g ! u)). v \<noteq> u \<longrightarrow> color (vs ! u) \<noteq> color (vs ! v)))"

text \<open>The claim as it is written, with no exception for an edge from a vertex to itself.\<close>

definition valid_coloring_all_edges :: "nat \<Rightarrow> Vertex list \<Rightarrow> Vertex list \<Rightarrow> bool" where
  "valid_coloring_all_edges n g vs \<longleftrightarrow>
     (\<forall>u \<in> {1..n}. color (vs ! u) \<noteq> -1 \<and>
        (\<forall>v \<in> set (neighbors (g ! u)). color (vs ! u) \<noteq> color (vs ! v)))"

definition loop_graph :: "Vertex list" where
  "loop_graph = mk_graph [[1, 1]]"

definition triangle :: "Vertex list" where
  "triangle = mk_graph [[2, 3], [1, 3], [1, 2]]"

subsection \<open>The number of colors (claims C5 and C6)\<close>

text \<open>No edge joins two distinct vertices; and, as the claim has it, no edge at all.\<close>

definition no_proper_edges :: "nat \<Rightarrow> Vertex list \<Rightarrow> bool" where
  "no_proper_edges n vs \<longleftrightarrow> (\<forall>u \<in> {1..n}. \<forall>v \<in> set (neighbors (vs ! u)). v = u)"

definition edgeless :: "nat \<Rightarrow> Vertex list \<Rightarrow> bool" where
  "edgeless n vs \<longleftrightarrow> (\<forall>u \<in> {1..n}. neighbors (vs ! u) = [])"

definition color_count_ok :: "nat \<Rightarrow> Vertex list \<Rightarrow> int \<Rightarrow> bool" where
  "color_count_ok n vs k \<longleftrightarrow>
     (n = 0 \<longrightarrow> k = 0) \<and> (1 \<le> n \<longrightarrow> 1 \<le> k \<and> (k = 1 \<longleftrightarrow> no_proper_edges n vs))"

definition four_cycle :: "Vertex list" where
  "four_cycle = mk_graph [[2, 4], [1, 3], [2, 4], [3, 1]]"

definition five_isolated :: "Vertex list" where
  "five_isolated = mk_graph [[], [], [], [], []]"

text \<open>The colors of the vertices \<open>1..N\<close> are exactly \<open>0..k-1\<close>, so that \<open>k\<close> is the number of
  colors in use and, on a graph with a vertex, the largest color plus 1.\<close>

definition colors_exact :: "nat \<Rightarrow> Vertex list \<Rightarrow> int \<Rightarrow> bool" where
  "colors_exact n vs k \<longleftrightarrow>
     (\<lambda>i. color (vs ! i)) ` {1..n} = {0..<k} \<and>
     int (card ((\<lambda>i. color (vs ! i)) ` {1..n})) = k \<and>
     (if n = 0 then k = 0 else Max ((\<lambda>i. color (vs ! i)) ` {1..n}) + 1 = k)"

subsection \<open>The states of a run of the generic driver\<close>

text \<open>The states at the head of the main loop: the state after the first vertex, and
  the state after each iteration that the loop runs.\<close>

inductive greedy_reachable ::
  "((nat \<Rightarrow> nat \<Rightarrow> bool) \<Rightarrow> nat list \<Rightarrow> nat list) \<Rightarrow> Vertex list \<Rightarrow> nat \<Rightarrow> string \<Rightarrow>
   greedy_state \<Rightarrow> bool"
  for srt vs0 n alg where
    start: "greedy_reachable srt vs0 n alg (snd (greedy_init srt vs0 n))"
  | step: "greedy_reachable srt vs0 n alg s \<Longrightarrow> uncolored_vertices_ptrs s \<noteq> [] \<Longrightarrow>
           greedy_iteration alg s = Continue s' \<Longrightarrow> greedy_reachable srt vs0 n alg s'"

text \<open>The state after \<open>k\<close> more iterations of the main loop (or fewer, when the loop ends
  before).\<close>

fun greedy_steps :: "nat \<Rightarrow> string \<Rightarrow> greedy_state \<Rightarrow> greedy_state" where
  "greedy_steps 0 alg s = s"
| "greedy_steps (Suc k) alg s =
     (if uncolored_vertices_ptrs s = [] then s
      else (case greedy_iteration alg s of
              Break s' \<Rightarrow> s'
            | Continue s' \<Rightarrow> greedy_steps k alg s'))"

subsection \<open>One iteration of the generic driver (claims C2 and C3)\<close>

text \<open>What one iteration does to a state of the run with a non-empty pointer list.\<close>

definition first_fit_step :: "nat \<Rightarrow> string \<Rightarrow> greedy_state \<Rightarrow> bool" where
  "first_fit_step n alg s \<longleftrightarrow>
     (\<exists>vs1 b s'.
        select_best alg (uncolored_vertices_ptrs s) (g_vertices s, None) = (vs1, Some b) \<and>
        greedy_iteration alg s = Continue s' \<and>
        map color vs1 = map color (g_vertices s) \<and>
        b \<in> set (uncolored_vertices_ptrs s) \<and>
        color (g_vertices s ! b) = -1 \<and>
        color_palette s = map int [0..<length (color_palette s)] \<and>
        next_available_color_idx s = int (length (color_palette s)) \<and>
        0 \<le> color (g_vertices s' ! b) \<and>
        isColorValid (vs1 ! b) (color (g_vertices s' ! b)) vs1 \<and>
        (\<forall>c. 0 \<le> c \<and> c < color (g_vertices s' ! b) \<longrightarrow> \<not> isColorValid (vs1 ! b) c vs1) \<and>
        (if \<exists>c \<in> set (color_palette s). isColorValid (vs1 ! b) c vs1
         then color (g_vertices s' ! b) \<in> set (color_palette s) \<and>
              color_palette s' = color_palette s \<and>
              next_available_color_idx s' = next_available_color_idx s
         else color (g_vertices s' ! b) = next_available_color_idx s \<and>
              color_palette s' = color_palette s @ [next_available_color_idx s] \<and>
              next_available_color_idx s' = next_available_color_idx s + 1) \<and>
        (\<forall>i. i \<noteq> b \<longrightarrow> color (g_vertices s' ! i) = color (g_vertices s ! i)) \<and>
        uncolored_vertices_ptrs s' = removeAll b (uncolored_vertices_ptrs s) \<and>
        length (uncolored_vertices_ptrs s') + 1 = length (uncolored_vertices_ptrs s) \<and>
        set (uncolored_vertices_ptrs s') = {i \<in> {1..n}. color (g_vertices s' ! i) = -1})"

subsection \<open>Termination (claim C2)\<close>

definition all_colored :: "nat \<Rightarrow> Vertex list \<Rightarrow> bool" where
  "all_colored n vs \<longleftrightarrow> (\<forall>i \<in> {1..n}. color (vs ! i) \<noteq> -1)"

text \<open>An iteration of the main loop of the generic driver takes one uncolored vertex
  from the pointer list and colors it; the list holds the uncolored vertices.\<close>

definition greedy_iteration_progress :: "nat \<Rightarrow> string \<Rightarrow> greedy_state \<Rightarrow> bool" where
  "greedy_iteration_progress n alg s \<longleftrightarrow>
     (\<exists>s' b. greedy_iteration alg s = Continue s' \<and>
        b \<in> set (uncolored_vertices_ptrs s) \<and>
        color (g_vertices s ! b) = -1 \<and> color (g_vertices s' ! b) \<noteq> -1 \<and>
        uncolored_vertices_ptrs s' = removeAll b (uncolored_vertices_ptrs s) \<and>
        length (uncolored_vertices_ptrs s') + 1 = length (uncolored_vertices_ptrs s) \<and>
        set (uncolored_vertices_ptrs s') = {i \<in> {1..n}. color (g_vertices s' ! i) = -1})"

text \<open>The states at the head of the outer loop of RLF.\<close>

inductive rlf_reachable :: "Vertex list \<Rightarrow> nat \<Rightarrow> rlf_state \<Rightarrow> bool" for vs0 n where
    start: "rlf_reachable vs0 n
              \<lparr>r_vertices = reset_colors vs0 n, current_color = 0, total_colored_vertices = 0\<rparr>"
  | step: "rlf_reachable vs0 n s \<Longrightarrow> total_colored_vertices s < int n \<Longrightarrow>
           rlf_class n s = Some (Continue s') \<Longrightarrow> rlf_reachable vs0 n s'"

text \<open>An iteration of the outer loop of RLF colors its seed, the vertex that
  \<open>find_max_degree_uncolored_vertex\<close> returns, with the current color; the counter is the
  number of colored vertices before and after, and grows.\<close>

definition rlf_class_progress :: "nat \<Rightarrow> rlf_state \<Rightarrow> bool" where
  "rlf_class_progress n s \<longleftrightarrow>
     (\<exists>s' v. rlf_class n s = Some (Continue s') \<and>
        find_max_degree_uncolored_vertex (r_vertices s) n = Some v \<and>
        color (r_vertices s ! v) = -1 \<and> color (r_vertices s' ! v) = current_color s \<and>
        total_colored_vertices s = int (card (colored_set n (r_vertices s))) \<and>
        total_colored_vertices s' = int (card (colored_set n (r_vertices s'))) \<and>
        total_colored_vertices s < total_colored_vertices s' \<and>
        current_color s' = current_color s + 1)"

subsection \<open>The first vertex and the seeds (claim C7)\<close>






subsection \<open>Two runs on vertex vectors that agree on the graph and on the colors\<close>

text \<open>Two vertex vectors with the same graph and the same colors: they differ in the
  heuristic values only.\<close>

definition same_colors :: "Vertex list \<Rightarrow> Vertex list \<Rightarrow> bool" where
  "same_colors vs' vs \<longleftrightarrow> graph_of vs' = graph_of vs \<and> map color vs' = map color vs"

text \<open>Two states of the generic driver that agree on everything but the heuristic
  values.\<close>

definition same_state :: "greedy_state \<Rightarrow> greedy_state \<Rightarrow> bool" where
  "same_state s' s \<longleftrightarrow>
     same_colors (g_vertices s') (g_vertices s) \<and>
     uncolored_vertices_ptrs s' = uncolored_vertices_ptrs s \<and>
     color_palette s' = color_palette s \<and>
     next_available_color_idx s' = next_available_color_idx s"

text \<open>Two states of RLF that agree on everything but the heuristic values.\<close>

definition same_rlf_state :: "rlf_state \<Rightarrow> rlf_state \<Rightarrow> bool" where
  "same_rlf_state s' s \<longleftrightarrow>
     same_colors (r_vertices s') (r_vertices s) \<and>
     current_color s' = current_color s \<and>
     total_colored_vertices s' = total_colored_vertices s"

subsection \<open>Determinism and independence of earlier state (claims C8 and C10)\<close>

text \<open>The vector \<open>vs'\<close> holds the same graph as \<open>vs\<close>, with any colors on the vertices \<open>1..N\<close>
  and any heuristic values: the state that an earlier run on \<open>vs\<close> leaves behind.\<close>

definition recolored :: "nat \<Rightarrow> Vertex list \<Rightarrow> Vertex list \<Rightarrow> bool" where
  "recolored n vs' vs \<longleftrightarrow>
     graph_of vs' = graph_of vs \<and> (\<forall>i. i \<notin> {1..n} \<longrightarrow> color (vs' ! i) = color (vs ! i))"

text \<open>Two results with the same colors on all vertices and the same number of colors.\<close>

definition same_result :: "coloring_result \<Rightarrow> coloring_result \<Rightarrow> bool" where
  "same_result r' r \<longleftrightarrow>
     map color (res_vertices r') = map color (res_vertices r) \<and> res_colors r' = res_colors r"

text \<open>The 4-cycle with colors left on the vertices 1 and 3.\<close>

definition four_cycle_used :: "Vertex list" where
  "four_cycle_used =
     (four_cycle[1 := (four_cycle ! 1)\<lparr>color := 7\<rparr>])
       [3 := ((four_cycle[1 := (four_cycle ! 1)\<lparr>color := 7\<rparr>]) ! 3)\<lparr>color := 0\<rparr>]"

text \<open>The vertex vector \<open>vs\<close> with the heuristic values \<open>hs\<close> in place of its own.\<close>

definition with_heuristics :: "Vertex list \<Rightarrow> int list \<Rightarrow> Vertex list" where
  "with_heuristics vs hs = map (\<lambda>(v, h). v\<lparr>heuristic_value := h\<rparr>) (zip vs hs)"

section \<open>The selection scan returns a vertex of the list\<close>

lemma select_best_mono:
  "select_best alg ptrs (vs, Some b) = (vs', r) \<Longrightarrow> \<exists>b'. r = Some b' \<and> (b' = b \<or> b' \<in> set ptrs)"
proof (induction ptrs arbitrary: vs b)
  case Nil
  then show ?case by simp
next
  case (Cons p ptrs)
  then show ?case by (simp add: Let_def split: if_splits) blast+
qed

lemma select_best_member:
  "select_best alg ptrs (vs, None) = (vs', Some b) \<Longrightarrow> b \<in> set ptrs"
  by (cases ptrs) (auto simp: Let_def dest: select_best_mono)

lemma select_best_nonempty:
  "ptrs \<noteq> [] \<Longrightarrow> select_best alg ptrs (vs, None) = (vs', r) \<Longrightarrow> \<exists>b. r = Some b"
  by (cases ptrs) (auto simp: Let_def dest: select_best_mono)

lemma greedy_iteration_shrinks:
  "greedy_iteration alg s = Continue s' \<Longrightarrow>
   length (uncolored_vertices_ptrs s') < length (uncolored_vertices_ptrs s)"
  by (auto simp: greedy_iteration_def greedy_assign_def Let_def length_removeAll_less
      split: prod.splits option.splits dest: select_best_member)

section \<open>The two insertion sorts meet the contract of the sort\<close>

lemma swo_asym: "strict_weak_order cmp \<Longrightarrow> cmp a b \<Longrightarrow> \<not> cmp b a"
  unfolding strict_weak_order_def by blast

lemma swo_negtrans: "strict_weak_order cmp \<Longrightarrow> \<not> cmp a b \<Longrightarrow> \<not> cmp b c \<Longrightarrow> \<not> cmp a c"
  unfolding strict_weak_order_def by blast

lemma mset_insert_stable: "mset (insert_stable cmp x ys) = add_mset x (mset ys)"
  by (induction ys) auto

lemma mset_stable_sort: "mset (stable_sort cmp xs) = mset xs"
  by (induction xs) (auto simp: mset_insert_stable)

lemma set_insert_stable: "set (insert_stable cmp x ys) = insert x (set ys)"
  by (induction ys) auto

lemma set_stable_sort: "set (stable_sort cmp xs) = set xs"
  by (induction xs) (auto simp: set_insert_stable)

lemma sorted_insert_stable:
  assumes "strict_weak_order cmp" "sorted_wrt (\<lambda>a b. \<not> cmp b a) ys"
  shows "sorted_wrt (\<lambda>a b. \<not> cmp b a) (insert_stable cmp x ys)"
  using assms(2)
proof (induction ys)
  case Nil
  then show ?case by simp
next
  case (Cons y ys)
  show ?case
  proof (cases "cmp y x")
    case True
    with Cons swo_asym[OF assms(1)] show ?thesis
      by (auto simp: set_insert_stable)
  next
    case False
    with Cons swo_negtrans[OF assms(1)] show ?thesis
      by auto
  qed
qed

lemma sorted_stable_sort:
  "strict_weak_order cmp \<Longrightarrow> sorted_wrt (\<lambda>a b. \<not> cmp b a) (stable_sort cmp xs)"
  by (induction xs) (auto intro: sorted_insert_stable)

lemma insert_stable_cong:
  "(\<forall>a \<in> insert x (set ys). \<forall>b \<in> insert x (set ys). cmp a b = cmp' a b) \<Longrightarrow>
   insert_stable cmp x ys = insert_stable cmp' x ys"
  by (induction ys) auto

lemma stable_sort_cong:
  "(\<forall>a \<in> set xs. \<forall>b \<in> set xs. cmp a b = cmp' a b) \<Longrightarrow> stable_sort cmp xs = stable_sort cmp' xs"
proof (induction xs)
  case Nil
  then show ?case by simp
next
  case (Cons x xs)
  then have "stable_sort cmp xs = stable_sort cmp' xs" by simp
  moreover have "insert_stable cmp x (stable_sort cmp' xs) = insert_stable cmp' x (stable_sort cmp' xs)"
    using Cons.prems by (intro insert_stable_cong) (simp add: set_stable_sort)
  ultimately show ?case by simp
qed

lemma stable_sort_contract: "std_sort_contract stable_sort"
  unfolding std_sort_contract_def
proof (intro conjI allI impI)
  fix cmp cmp' :: "'a \<Rightarrow> 'a \<Rightarrow> bool" and xs
  assume "\<forall>a \<in> set xs. \<forall>b \<in> set xs. cmp a b = cmp' a b"
  then show "stable_sort cmp xs = stable_sort cmp' xs" by (rule stable_sort_cong)
qed (simp_all add: mset_stable_sort sorted_stable_sort)










section \<open>Basic facts: graph structure, reset, feasibility\<close>

lemma graph_of_length: "graph_of vs = graph_of vs' \<Longrightarrow> length vs = length vs'"
  unfolding graph_of_def by (rule map_eq_imp_length_eq)

lemma graph_of_nth:
  assumes "graph_of vs = graph_of vs'" "i < length vs"
  shows "neighbors (vs ! i) = neighbors (vs' ! i)" "degree (vs ! i) = degree (vs' ! i)"
proof -
  have l: "i < length vs'" using assms graph_of_length by metis
  have "graph_of vs ! i = graph_of vs' ! i" using assms by simp
  then have "(vertex_id (vs ! i), degree (vs ! i), neighbors (vs ! i)) =
             (vertex_id (vs' ! i), degree (vs' ! i), neighbors (vs' ! i))"
    using assms(2) l by (simp add: graph_of_def)
  then show "neighbors (vs ! i) = neighbors (vs' ! i)" "degree (vs ! i) = degree (vs' ! i)"
    by simp_all
qed

lemma map_update_same:
  "f (g (vs ! i)) = f (vs ! i) \<Longrightarrow> map f (vs[i := g (vs ! i)]) = map f vs"
  by (cases "i < length vs") (simp_all add: map_update list_update_same_conv list_update_beyond)

lemma graph_of_color_update [simp]: "graph_of (vs[i := (vs ! i)\<lparr>color := c\<rparr>]) = graph_of vs"
  unfolding graph_of_def by (rule map_update_same) simp

lemma graph_of_heuristic_update [simp]:
  "graph_of (vs[i := (vs ! i)\<lparr>heuristic_value := h\<rparr>]) = graph_of vs"
  unfolding graph_of_def by (rule map_update_same) simp

lemma colors_heuristic_update [simp]:
  "map color (vs[i := (vs ! i)\<lparr>heuristic_value := h\<rparr>]) = map color vs"
  by (rule map_update_same) simp

lemma map_color_nth: "map color vs = map color vs' \<Longrightarrow> i < length vs \<Longrightarrow> color (vs ! i) = color (vs' ! i)"
  by (metis length_map nth_map)

lemma valid_indices_cong:
  assumes "graph_of vs = graph_of vs'" "valid_indices n vs"
  shows "valid_indices n vs'"
proof -
  have len: "length vs = Suc n" using assms(2) unfolding valid_indices_def by blast
  have len': "length vs' = Suc n" using len graph_of_length[OF assms(1)] by simp
  have nb: "neighbors (vs' ! u) = neighbors (vs ! u)" if "u \<in> {1..n}" for u
  proof -
    have "u < length vs" using that len by simp
    from graph_of_nth(1)[OF assms(1) this] show ?thesis by simp
  qed
  have "1 \<le> v \<and> v \<le> n" if "u \<in> {1..n}" "v \<in> set (neighbors (vs' ! u))" for u v
  proof -
    have "v \<in> set (neighbors (vs ! u))" using that nb by simp
    then show ?thesis using assms(2) that(1) unfolding valid_indices_def by blast
  qed
  then show ?thesis unfolding valid_indices_def using len' by blast
qed

lemma valid_indices_range:
  "valid_indices n vs \<Longrightarrow> u \<in> {1..n} \<Longrightarrow> v \<in> set (neighbors (vs ! u)) \<Longrightarrow> v \<in> {1..n}"
  apply (unfold valid_indices_def)
  apply (elim conjE)
  apply (drule (1) bspec)
  apply (drule (1) bspec)
  apply simp
  done

lemma valid_indices_length: "valid_indices n vs \<Longrightarrow> length vs = Suc n"
  unfolding valid_indices_def by blast

lemma symmetric_adjacencyD:
  "symmetric_adjacency n vs \<Longrightarrow> u \<in> {1..n} \<Longrightarrow> v \<in> set (neighbors (vs ! u)) \<Longrightarrow>
   u \<in> set (neighbors (vs ! v))"
  unfolding symmetric_adjacency_def by blast

lemma well_formed_cong:
  assumes "graph_of vs = graph_of vs'" "well_formed n vs"
  shows "well_formed n vs'"
proof -
  have vi: "valid_indices n vs" and sym: "symmetric_adjacency n vs"
    using assms(2) unfolding well_formed_def by blast+
  have len: "length vs = Suc n" using vi by (rule valid_indices_length)
  have nb: "neighbors (vs' ! u) = neighbors (vs ! u)" if "u \<in> {1..n}" for u
  proof -
    have "u < length vs" using that len by simp
    from graph_of_nth(1)[OF assms(1) this] show ?thesis by simp
  qed
  have "symmetric_adjacency n vs'"
    unfolding symmetric_adjacency_def
  proof (intro ballI)
    fix u v assume u: "u \<in> {1..n}" and v: "v \<in> set (neighbors (vs' ! u))"
    then have v': "v \<in> set (neighbors (vs ! u))" using nb by simp
    have "u \<in> set (neighbors (vs ! v))" using symmetric_adjacencyD[OF sym u v'] .
    moreover have "v \<in> {1..n}" using valid_indices_range[OF vi u v'] .
    ultimately show "u \<in> set (neighbors (vs' ! v))" using nb by simp
  qed
  then show ?thesis using valid_indices_cong[OF assms(1) vi] unfolding well_formed_def by blast
qed

lemma reset_fold_length:
  "length (fold (\<lambda>i vs. vs[i := (vs ! i)\<lparr>color := -1\<rparr>]) ns vs) = length vs"
  by (induction ns arbitrary: vs) simp_all

lemma reset_fold_graph:
  "graph_of (fold (\<lambda>i vs. vs[i := (vs ! i)\<lparr>color := -1\<rparr>]) ns vs) = graph_of vs"
  by (induction ns arbitrary: vs) simp_all

lemma reset_fold_color:
  "j < length vs \<Longrightarrow>
   color (fold (\<lambda>i vs. vs[i := (vs ! i)\<lparr>color := -1\<rparr>]) ns vs ! j) =
     (if j \<in> set ns then -1 else color (vs ! j))"
proof (induction ns arbitrary: vs)
  case Nil
  then show ?case by simp
next
  case (Cons a ns)
  then show ?case by (simp add: nth_list_update)
qed

lemma reset_colors_length [simp]: "length (reset_colors vs n) = length vs"
  by (simp add: reset_colors_def reset_fold_length)

lemma reset_colors_graph [simp]: "graph_of (reset_colors vs n) = graph_of vs"
  by (simp add: reset_colors_def reset_fold_graph)

lemma reset_colors_color:
  "i \<in> {1..n} \<Longrightarrow> i < length vs \<Longrightarrow> color (reset_colors vs n ! i) = -1"
  unfolding reset_colors_def using reset_fold_color[of i vs "[1..<Suc n]"]
  by (simp del: upt_Suc)

lemma select_best_keeps:
  "select_best alg ptrs (vs, best) = (vs', r) \<Longrightarrow>
   graph_of vs' = graph_of vs \<and> map color vs' = map color vs"
proof (induction ptrs arbitrary: vs best)
  case Nil
  then show ?case by simp
next
  case (Cons p ptrs)
  from Cons.prems obtain best' where
    "select_best alg ptrs (vs[p := (vs ! p)\<lparr>heuristic_value := compute_heuristic alg vs p\<rparr>], best') = (vs', r)"
    by (simp add: Let_def)
  from Cons.IH[OF this] show ?case by simp
qed

lemma isColorValid_scan_iff:
  "isColorValid_scan nbs c vs \<longleftrightarrow> (\<forall>nb \<in> set nbs. color (vs ! nb) \<noteq> c)"
  by (induction nbs) auto

lemma isColorValid_iff:
  "isColorValid v c vs \<longleftrightarrow> (\<forall>nb \<in> set (neighbors v). color (vs ! nb) \<noteq> c)"
  by (simp add: isColorValid_def isColorValid_scan_iff)

lemma first_valid_color_upt:
  "first_valid_color v (map int [j..<k]) vs = r \<Longrightarrow>
   (r = -1 \<and> (\<forall>c. int j \<le> c \<and> c < int k \<longrightarrow> \<not> isColorValid v c vs)) \<or>
   (int j \<le> r \<and> r < int k \<and> isColorValid v r vs \<and>
      (\<forall>c. int j \<le> c \<and> c < r \<longrightarrow> \<not> isColorValid v c vs))"
proof (induction "k - j" arbitrary: j)
  case 0
  then have kj: "int k \<le> int j" and r: "r = -1" by simp_all
  have "\<not> (int j \<le> c \<and> c < int k)" for c using kj by linarith
  with r show ?case by blast
next
  case (Suc d)
  then have jk: "j < k" by simp
  then have upt: "[j..<k] = j # [Suc j..<k]" by (simp add: upt_conv_Cons)
  show ?case
  proof (cases "isColorValid v (int j) vs")
    case True
    then have "r = int j" using Suc.prems upt by simp
    then show ?thesis using True jk by auto
  next
    case False
    then have "first_valid_color v (map int [Suc j..<k]) vs = r" using Suc.prems upt by simp
    moreover have "d = k - Suc j" using Suc.hyps by simp
    ultimately have IH: "(r = -1 \<and> (\<forall>c. int (Suc j) \<le> c \<and> c < int k \<longrightarrow> \<not> isColorValid v c vs)) \<or>
       (int (Suc j) \<le> r \<and> r < int k \<and> isColorValid v r vs \<and>
          (\<forall>c. int (Suc j) \<le> c \<and> c < r \<longrightarrow> \<not> isColorValid v c vs))"
      using Suc.hyps(1) by blast
    have step: "\<not> isColorValid v c vs" if "int j \<le> c" "c < r'" 
       "\<forall>c. int (Suc j) \<le> c \<and> c < r' \<longrightarrow> \<not> isColorValid v c vs" for c r'
    proof (cases "c = int j")
      case True
      then show ?thesis using False by simp
    next
      case False
      then have "int (Suc j) \<le> c" using that(1) by simp
      then show ?thesis using that by blast
    qed
    from IH show ?thesis
    proof
      assume a: "r = -1 \<and> (\<forall>c. int (Suc j) \<le> c \<and> c < int k \<longrightarrow> \<not> isColorValid v c vs)"
      then show ?thesis using step[of _ "int k"] by blast
    next
      assume a: "int (Suc j) \<le> r \<and> r < int k \<and> isColorValid v r vs \<and>
          (\<forall>c. int (Suc j) \<le> c \<and> c < r \<longrightarrow> \<not> isColorValid v c vs)"
      then have "int j \<le> r" by simp
      then show ?thesis using a step[of _ r] by blast
    qed
  qed
qed

section \<open>Invariants of the generic greedy driver\<close>

lemma proper_partialD:
  "proper_partial n vs \<Longrightarrow> u \<in> {1..n} \<Longrightarrow> v \<in> set (neighbors (vs ! u)) \<Longrightarrow> v \<noteq> u \<Longrightarrow>
   color (vs ! u) \<noteq> -1 \<Longrightarrow> color (vs ! v) \<noteq> color (vs ! u)"
  unfolding proper_partial_def by blast

lemma nth_color_update:
  "i < length vs \<Longrightarrow> color (vs[b := (vs ! b)\<lparr>color := c\<rparr>] ! i) = (if i = b then c else color (vs ! i))"
  by (simp add: nth_list_update)

lemma nth_neighbors_color_update:
  "neighbors (vs[b := (vs ! b)\<lparr>color := c\<rparr>] ! i) = neighbors (vs ! i)"
  by (cases "b < length vs") (simp_all add: nth_list_update list_update_beyond)

lemma color_vertex_proper:
  assumes wf: "well_formed n vs" and b: "b \<in> {1..n}" and pp: "proper_partial n vs"
    and free: "\<forall>v \<in> set (neighbors (vs ! b)). v \<noteq> b \<longrightarrow> color (vs ! v) \<noteq> c"
  shows "proper_partial n (vs[b := (vs ! b)\<lparr>color := c\<rparr>])"
  unfolding proper_partial_def
proof (intro ballI impI)
  let ?vs' = "vs[b := (vs ! b)\<lparr>color := c\<rparr>]"
  fix u v
  assume u: "u \<in> {1..n}" and v: "v \<in> set (neighbors (?vs' ! u))"
    and h: "v \<noteq> u \<and> color (?vs' ! u) \<noteq> -1"
  have vi: "valid_indices n vs" and sym: "symmetric_adjacency n vs"
    using wf unfolding well_formed_def by blast+
  have len: "length vs = Suc n" using vi by (rule valid_indices_length)
  have v': "v \<in> set (neighbors (vs ! u))" using v by (simp only: nth_neighbors_color_update)
  have vr: "v \<in> {1..n}" using valid_indices_range[OF vi u v'] .
  have ul: "u < length vs" and vl: "v < length vs" using u vr len by simp_all
  have cu: "color (?vs' ! u) = (if u = b then c else color (vs ! u))"
    using nth_color_update[OF ul] .
  have cv: "color (?vs' ! v) = (if v = b then c else color (vs ! v))"
    using nth_color_update[OF vl] .
  show "color (?vs' ! v) \<noteq> color (?vs' ! u)"
  proof (cases "u = b")
    case True
    then have "v \<noteq> b" using h by simp
    moreover have "color (vs ! v) \<noteq> c" using free v' True h by blast
    ultimately show ?thesis using cu cv True by simp
  next
    case False
    then have cu': "color (?vs' ! u) = color (vs ! u)" using cu by simp
    show ?thesis
    proof (cases "v = b")
      case True
      have "u \<in> set (neighbors (vs ! b))" using symmetric_adjacencyD[OF sym u v'] True by simp
      then have "color (vs ! u) \<noteq> c" using free False by blast
      then show ?thesis using cu' cv True by simp
    next
      case False
      then have "color (?vs' ! v) = color (vs ! v)" using cv by simp
      moreover have "color (vs ! v) \<noteq> color (vs ! u)"
        using proper_partialD[OF pp u v'] h cu' by simp
      ultimately show ?thesis using cu' by simp
    qed
  qed
qed

lemma greedy_assign_fields:
  "g_vertices (greedy_assign s vs b) = vs[b := (vs ! b)\<lparr>color := chosen_color_of s vs b\<rparr>]"
  "uncolored_vertices_ptrs (greedy_assign s vs b) = removeAll b (uncolored_vertices_ptrs s)"
  "color_palette (greedy_assign s vs b) =
     (if first_valid_color (vs ! b) (color_palette s) vs = -1
      then color_palette s @ [next_available_color_idx s] else color_palette s)"
  "next_available_color_idx (greedy_assign s vs b) =
     (if first_valid_color (vs ! b) (color_palette s) vs = -1
      then next_available_color_idx s + 1 else next_available_color_idx s)"
  by (simp_all add: greedy_assign_def chosen_color_of_def Let_def)

lemma chosen_color_facts:
  assumes nx: "next_available_color_idx s = int k" and pal: "color_palette s = map int [0..<k]"
    and range: "\<forall>nb \<in> set (neighbors (vs ! b)). color (vs ! nb) < int k"
  shows "0 \<le> chosen_color_of s vs b"
    and "chosen_color_of s vs b < next_available_color_idx (greedy_assign s vs b)"
    and "isColorValid (vs ! b) (chosen_color_of s vs b) vs"
    and "\<forall>c. 0 \<le> c \<and> c < chosen_color_of s vs b \<longrightarrow> \<not> isColorValid (vs ! b) c vs"
    and "\<exists>k'. next_available_color_idx (greedy_assign s vs b) = int k' \<and>
              color_palette (greedy_assign s vs b) = map int [0..<k'] \<and> k \<le> k' \<and>
              (\<forall>c. 0 \<le> c \<and> c < int k' \<longrightarrow> c < int k \<or> c = chosen_color_of s vs b)"
proof -
  define found where "found = first_valid_color (vs ! b) (color_palette s) vs"
  have fv: "first_valid_color (vs ! b) (map int [0..<k]) vs = found"
    using found_def pal by simp
  have alt: "(found = -1 \<and> (\<forall>c. 0 \<le> c \<and> c < int k \<longrightarrow> \<not> isColorValid (vs ! b) c vs)) \<or>
     (0 \<le> found \<and> found < int k \<and> isColorValid (vs ! b) found vs \<and>
        (\<forall>c. 0 \<le> c \<and> c < found \<longrightarrow> \<not> isColorValid (vs ! b) c vs))"
    using first_valid_color_upt[OF fv] by simp
  have ch: "chosen_color_of s vs b = (if found = -1 then int k else found)"
    by (simp add: chosen_color_of_def found_def nx)
  have nx': "next_available_color_idx (greedy_assign s vs b) = (if found = -1 then int k + 1 else int k)"
    by (simp add: greedy_assign_fields found_def nx)
  have pal': "color_palette (greedy_assign s vs b) =
       (if found = -1 then map int [0..<Suc k] else map int [0..<k])"
    by (simp add: greedy_assign_fields found_def nx pal)
  show "0 \<le> chosen_color_of s vs b" using alt ch by auto
  show "chosen_color_of s vs b < next_available_color_idx (greedy_assign s vs b)"
    using alt ch nx' by auto
  show "isColorValid (vs ! b) (chosen_color_of s vs b) vs"
  proof (cases "found = -1")
    case True
    then have "chosen_color_of s vs b = int k" using ch by simp
    moreover have "isColorValid (vs ! b) (int k) vs"
      unfolding isColorValid_iff using range by fastforce
    ultimately show ?thesis by simp
  next
    case False
    then show ?thesis using alt ch by simp
  qed
  show "\<forall>c. 0 \<le> c \<and> c < chosen_color_of s vs b \<longrightarrow> \<not> isColorValid (vs ! b) c vs"
    using alt ch by auto
  show "\<exists>k'. next_available_color_idx (greedy_assign s vs b) = int k' \<and>
              color_palette (greedy_assign s vs b) = map int [0..<k'] \<and> k \<le> k' \<and>
              (\<forall>c. 0 \<le> c \<and> c < int k' \<longrightarrow> c < int k \<or> c = chosen_color_of s vs b)"
  proof (cases "found = -1")
    case True
    have "next_available_color_idx (greedy_assign s vs b) = int (Suc k)" using nx' True by simp
    moreover have "color_palette (greedy_assign s vs b) = map int [0..<Suc k]" using pal' True by simp
    moreover have "\<forall>c. 0 \<le> c \<and> c < int (Suc k) \<longrightarrow> c < int k \<or> c = chosen_color_of s vs b"
      using ch True by auto
    ultimately show ?thesis by (intro exI[of _ "Suc k"]) simp
  next
    case False
    have "next_available_color_idx (greedy_assign s vs b) = int k" using nx' False by simp
    moreover have "color_palette (greedy_assign s vs b) = map int [0..<k]" using pal' False by simp
    ultimately show ?thesis by (intro exI[of _ k]) simp
  qed
qed

lemma greedy_assign_inv:
  assumes inv: "greedy_inv n s"
    and g: "graph_of vs = graph_of (g_vertices s)"
    and c: "map color vs = map color (g_vertices s)"
    and b: "b \<in> set (uncolored_vertices_ptrs s)"
  shows "greedy_inv n (greedy_assign s vs b)"
proof -
  let ?vs0 = "g_vertices s"
  let ?s' = "greedy_assign s vs b"
  let ?ch = "chosen_color_of s vs b"
  let ?vs' = "vs[b := (vs ! b)\<lparr>color := ?ch\<rparr>]"
  have wf0: "well_formed n ?vs0" using inv unfolding greedy_inv_def by blast
  have wf: "well_formed n vs" using well_formed_cong[OF g[symmetric] wf0] .
  have vi: "valid_indices n vs" using wf unfolding well_formed_def by blast
  have len: "length vs = Suc n" using vi by (rule valid_indices_length)
  have len0: "length ?vs0 = Suc n" using len graph_of_length[OF g] by simp
  have col: "color (vs ! i) = color (?vs0 ! i)" if "i \<in> {1..n}" for i
    using map_color_nth[OF c, of i] that len by simp
  have ptrs: "set (uncolored_vertices_ptrs s) = {i \<in> {1..n}. color (?vs0 ! i) = -1}"
    using inv unfolding greedy_inv_def by blast
  have dist: "distinct (uncolored_vertices_ptrs s)" using inv unfolding greedy_inv_def by blast
  have bn: "b \<in> {1..n}" and cb0: "color (?vs0 ! b) = -1" using b ptrs by auto
  obtain k where nx: "next_available_color_idx s = int k" and pal: "color_palette s = map int [0..<k]"
    using inv unfolding greedy_inv_def by blast
  have rng0: "color (?vs0 ! i) = -1 \<or> (0 \<le> color (?vs0 ! i) \<and> color (?vs0 ! i) < int k)"
    if "i \<in> {1..n}" for i
    using inv that nx unfolding greedy_inv_def by simp
  have used0: "\<exists>i \<in> {1..n}. color (?vs0 ! i) = c" if "0 \<le> c" "c < int k" for c
    using inv that nx unfolding greedy_inv_def by simp
  have pp0: "proper_partial n ?vs0" using inv unfolding greedy_inv_def by blast
  have nbr: "neighbors (vs ! i) = neighbors (?vs0 ! i)" if "i \<in> {1..n}" for i
    using graph_of_nth(1)[OF g, of i] that len by simp
  have pp: "proper_partial n vs"
    unfolding proper_partial_def
  proof (intro ballI impI)
    fix u v assume u: "u \<in> {1..n}" and v: "v \<in> set (neighbors (vs ! u))"
      and h: "v \<noteq> u \<and> color (vs ! u) \<noteq> - 1"
    have v0: "v \<in> set (neighbors (?vs0 ! u))" using v nbr[OF u] by simp
    have vr: "v \<in> {1..n}" using valid_indices_range[OF vi u v] .
    have "color (?vs0 ! v) \<noteq> color (?vs0 ! u)"
      using proper_partialD[OF pp0 u v0] h col[OF u] by simp
    then show "color (vs ! v) \<noteq> color (vs ! u)" using col[OF u] col[OF vr] by simp
  qed
  have nbrange: "\<forall>nb \<in> set (neighbors (vs ! b)). color (vs ! nb) < int k"
  proof
    fix nb assume "nb \<in> set (neighbors (vs ! b))"
    then have r: "nb \<in> {1..n}" using valid_indices_range[OF vi bn] by blast
    show "color (vs ! nb) < int k" using rng0[OF r] col[OF r] by auto
  qed
  note cf = chosen_color_facts[OF nx pal nbrange]
  have ch0: "0 \<le> ?ch" using cf(1) .
  have free: "\<forall>v \<in> set (neighbors (vs ! b)). v \<noteq> b \<longrightarrow> color (vs ! v) \<noteq> ?ch"
    using cf(3) unfolding isColorValid_iff by blast
  have pp': "proper_partial n ?vs'" using color_vertex_proper[OF wf bn pp free] .
  have wf': "well_formed n ?vs'" by (rule well_formed_cong[OF _ wf]) simp
  have col': "color (?vs' ! i) = (if i = b then ?ch else color (?vs0 ! i))" if "i \<in> {1..n}" for i
  proof -
    have "i < length vs" using that len by simp
    from nth_color_update[OF this] show ?thesis using col[OF that] by simp
  qed
  obtain k' where nx': "next_available_color_idx ?s' = int k'"
    and pal': "color_palette ?s' = map int [0..<k']" and kk': "k \<le> k'"
    and new: "\<forall>c. 0 \<le> c \<and> c < int k' \<longrightarrow> c < int k \<or> c = ?ch"
    using cf(5) by blast
  have chk': "?ch < int k'" using cf(2) nx' by simp
  have set': "set (removeAll b (uncolored_vertices_ptrs s)) = {i \<in> {1..n}. color (?vs' ! i) = -1}"
  proof (intro set_eqI iffI)
    fix i assume "i \<in> set (removeAll b (uncolored_vertices_ptrs s))"
    then have "i \<noteq> b" and "i \<in> {1..n}" and "color (?vs0 ! i) = -1" using ptrs by auto
    then show "i \<in> {i \<in> {1..n}. color (?vs' ! i) = -1}" using col'[of i] by simp
  next
    fix i assume "i \<in> {i \<in> {1..n}. color (?vs' ! i) = -1}"
    then have i: "i \<in> {1..n}" and ci: "color (?vs' ! i) = -1" by simp_all
    have "i \<noteq> b" using ci col'[OF i] ch0 by auto
    moreover from this have "color (?vs0 ! i) = -1" using ci col'[OF i] by simp
    ultimately show "i \<in> set (removeAll b (uncolored_vertices_ptrs s))" using ptrs i by simp
  qed
  have rng': "\<forall>i \<in> {1..n}. color (?vs' ! i) = -1 \<or>
       (0 \<le> color (?vs' ! i) \<and> color (?vs' ! i) < int k')"
  proof
    fix i assume i: "i \<in> {1..n}"
    show "color (?vs' ! i) = -1 \<or> (0 \<le> color (?vs' ! i) \<and> color (?vs' ! i) < int k')"
    proof (cases "i = b")
      case True
      then show ?thesis using col'[OF i] ch0 chk' by simp
    next
      case False
      then show ?thesis using col'[OF i] rng0[OF i] kk' by auto
    qed
  qed
  have used': "\<forall>c. 0 \<le> c \<and> c < int k' \<longrightarrow> (\<exists>i \<in> {1..n}. color (?vs' ! i) = c)"
  proof (intro allI impI)
    fix c assume c: "0 \<le> c \<and> c < int k'"
    show "\<exists>i \<in> {1..n}. color (?vs' ! i) = c"
    proof (cases "c = ?ch")
      case True
      then show ?thesis using col'[OF bn] bn by auto
    next
      case False
      then have "c < int k" using new c by blast
      then obtain i where i: "i \<in> {1..n}" and ci: "color (?vs0 ! i) = c" using used0 c by blast
      have "i \<noteq> b" using ci cb0 c by auto
      then have "color (?vs' ! i) = c" using col'[OF i] ci by simp
      then show ?thesis using i by blast
    qed
  qed
  show ?thesis
    unfolding greedy_inv_def greedy_assign_fields(1,2)
    using wf' dist set' nx' pal' rng' used' pp'
    by (simp add: distinct_removeAll)
qed

lemma greedy_iteration_inv:
  assumes inv: "greedy_inv n s" and ne: "uncolored_vertices_ptrs s \<noteq> []"
  shows "\<exists>s'. greedy_iteration alg s = Continue s' \<and> greedy_inv n s' \<and>
              graph_of (g_vertices s') = graph_of (g_vertices s)"
proof -
  obtain vs r where sel: "select_best alg (uncolored_vertices_ptrs s) (g_vertices s, None) = (vs, r)"
    by (cases "select_best alg (uncolored_vertices_ptrs s) (g_vertices s, None)")
  obtain b where r: "r = Some b" using select_best_nonempty[OF ne sel] by blast
  have b: "b \<in> set (uncolored_vertices_ptrs s)" using select_best_member sel r by blast
  have keep: "graph_of vs = graph_of (g_vertices s)" "map color vs = map color (g_vertices s)"
    using select_best_keeps[OF sel] by simp_all
  have it: "greedy_iteration alg s = Continue (greedy_assign s vs b)"
    by (simp add: greedy_iteration_def sel r)
  have "graph_of (g_vertices (greedy_assign s vs b)) = graph_of (g_vertices s)"
    by (simp add: greedy_assign_fields keep)
  then show ?thesis using it greedy_assign_inv[OF inv keep b] by blast
qed

lemma greedy_loop_inv:
  "greedy_inv n s \<Longrightarrow> greedy_loop alg s = (s', w) \<Longrightarrow>
   greedy_inv n s' \<and> uncolored_vertices_ptrs s' = [] \<and> \<not> w \<and>
   graph_of (g_vertices s') = graph_of (g_vertices s)"
proof (induction alg s rule: greedy_loop.induct)
  case (1 alg s)
  show ?case
  proof (cases "uncolored_vertices_ptrs s = []")
    case True
    then show ?thesis using "1.prems" by (simp add: greedy_loop.simps[of alg s])
  next
    case False
    obtain s1 where it: "greedy_iteration alg s = Continue s1" and inv1: "greedy_inv n s1"
      and g1: "graph_of (g_vertices s1) = graph_of (g_vertices s)"
      using greedy_iteration_inv[OF "1.prems"(1) False] by blast
    have "greedy_loop alg s1 = (s', w)"
      using "1.prems"(2) False it by (simp add: greedy_loop.simps[of alg s])
    from "1.IH"[OF False it inv1 this] g1 show ?thesis by simp
  qed
qed

lemma swo_degree: "strict_weak_order (\<lambda>a b. (f a :: int) > f b)"
  unfolding strict_weak_order_def by auto

lemma contract_mset:
  "std_sort_contract srt \<Longrightarrow> strict_weak_order cmp \<Longrightarrow> mset (srt cmp xs) = mset xs"
  unfolding std_sort_contract_def by blast


lemma contract_cong:
  "std_sort_contract srt \<Longrightarrow> (\<forall>a \<in> set xs. \<forall>b \<in> set xs. cmp a b = cmp' a b) \<Longrightarrow>
   srt cmp xs = srt cmp' xs"
  unfolding std_sort_contract_def by blast

lemma greedy_init_eq:
  "greedy_init srt vs0 n =
     (uncolored_vertices_ptrs (greedy_start srt vs0 n) ! 0,
      greedy_assign (greedy_start srt vs0 n) (g_vertices (greedy_start srt vs0 n))
        (uncolored_vertices_ptrs (greedy_start srt vs0 n) ! 0))"
  by (simp add: greedy_init_def greedy_start_def greedy_assign_def Let_def)

lemma greedy_start_ptrs:
  assumes "std_sort_contract srt"
  shows "set (uncolored_vertices_ptrs (greedy_start srt vs0 n)) = {1..n}"
    and "distinct (uncolored_vertices_ptrs (greedy_start srt vs0 n))"
proof -
  let ?vs = "reset_colors vs0 n"
  let ?cmp = "\<lambda>a b. degree (?vs ! a) > degree (?vs ! b)"
  have p: "uncolored_vertices_ptrs (greedy_start srt vs0 n) = srt ?cmp [1..<Suc n]"
    by (simp add: greedy_start_def Let_def)
  have m: "mset (srt ?cmp [1..<Suc n]) = mset [1..<Suc n]"
    using contract_mset[OF assms swo_degree] .
  have "set (srt ?cmp [1..<Suc n]) = set [1..<Suc n]" using m by (rule mset_eq_setD)
  then show "set (uncolored_vertices_ptrs (greedy_start srt vs0 n)) = {1..n}"
    unfolding p by (simp add: atLeastLessThanSuc_atLeastAtMost del: upt_Suc)
  have "distinct (srt ?cmp [1..<Suc n]) = distinct [1..<Suc n]" using m by (rule mset_eq_imp_distinct_iff)
  then show "distinct (uncolored_vertices_ptrs (greedy_start srt vs0 n))" unfolding p by simp
qed

lemma greedy_start_inv:
  assumes wf: "well_formed n vs0" and srt: "std_sort_contract srt"
  shows "greedy_inv n (greedy_start srt vs0 n)"
proof -
  let ?s = "greedy_start srt vs0 n"
  have gv: "g_vertices ?s = reset_colors vs0 n" by (simp add: greedy_start_def Let_def)
  have wf': "well_formed n (g_vertices ?s)"
    unfolding gv by (rule well_formed_cong[OF _ wf]) simp
  have len: "length vs0 = Suc n" using wf unfolding well_formed_def valid_indices_def by blast
  have col: "color (g_vertices ?s ! i) = -1" if "i \<in> {1..n}" for i
    unfolding gv using reset_colors_color[OF that, of vs0] that len by simp
  have set: "set (uncolored_vertices_ptrs ?s) = {i \<in> {1..n}. color (g_vertices ?s ! i) = -1}"
    using greedy_start_ptrs(1)[OF srt, of vs0 n] col by auto
  have pp: "proper_partial n (g_vertices ?s)"
    unfolding proper_partial_def using col by blast
  have nx: "next_available_color_idx ?s = int 0 \<and> color_palette ?s = map int [0..<0]"
    by (simp add: greedy_start_def Let_def)
  have rng: "\<forall>i \<in> {1..n}. color (g_vertices ?s ! i) = -1 \<or>
      (0 \<le> color (g_vertices ?s ! i) \<and> color (g_vertices ?s ! i) < next_available_color_idx ?s)"
    using col by blast
  have used: "\<forall>c. 0 \<le> c \<and> c < next_available_color_idx ?s \<longrightarrow>
          (\<exists>i \<in> {1..n}. color (g_vertices ?s ! i) = c)"
    using nx by simp
  show ?thesis
    unfolding greedy_inv_def
    using wf' greedy_start_ptrs(2)[OF srt] set nx rng used pp by blast
qed

lemma greedy_init_inv:
  assumes wf: "well_formed n vs0" and srt: "std_sort_contract srt" and n: "1 \<le> n"
  shows "greedy_inv n (snd (greedy_init srt vs0 n))"
    and "graph_of (g_vertices (snd (greedy_init srt vs0 n))) = graph_of vs0"
    and "fst (greedy_init srt vs0 n) \<in> {1..n}"
proof -
  let ?s = "greedy_start srt vs0 n"
  have "uncolored_vertices_ptrs ?s \<noteq> []" using greedy_start_ptrs(1)[OF srt, of vs0 n] n by auto
  then have b: "uncolored_vertices_ptrs ?s ! 0 \<in> set (uncolored_vertices_ptrs ?s)"
    by (simp add: nth_mem del: set_conv_nth)
  show "greedy_inv n (snd (greedy_init srt vs0 n))"
    unfolding greedy_init_eq snd_conv
    by (rule greedy_assign_inv[OF greedy_start_inv[OF wf srt] refl refl b])
  show "graph_of (g_vertices (snd (greedy_init srt vs0 n))) = graph_of vs0"
    unfolding greedy_init_eq snd_conv greedy_assign_fields
    by (simp add: greedy_start_def Let_def)
  show "fst (greedy_init srt vs0 n) \<in> {1..n}"
    unfolding greedy_init_eq fst_conv using b greedy_start_ptrs(1)[OF srt, of vs0 n] by simp
qed

lemma generic_greedy_zero:
  "generic_greedy_coloring srt vs0 0 alg =
     \<lparr>res_vertices = reset_colors vs0 0, res_colors = 0, res_warned = False\<rparr>"
  by (simp add: generic_greedy_coloring_def)

lemma generic_greedy_pos:
  "1 \<le> n \<Longrightarrow> generic_greedy_coloring srt vs0 n alg =
     (case greedy_loop alg (snd (greedy_init srt vs0 n)) of
        (s, w) \<Rightarrow> \<lparr>res_vertices = g_vertices s, res_colors = next_available_color_idx s,
                   res_warned = w\<rparr>)"
  unfolding generic_greedy_coloring_def by (simp del: upt_Suc)

lemma greedy_inv_final:
  assumes inv: "greedy_inv n s" and e: "uncolored_vertices_ptrs s = []"
    and g: "graph_of (g_vertices s) = graph_of vs0"
  shows "complete_coloring n vs0 (g_vertices s) (next_available_color_idx s)"
proof -
  have "{i \<in> {1..n}. color (g_vertices s ! i) = -1} = {}"
    using inv e unfolding greedy_inv_def by auto
  then have nun: "color (g_vertices s ! i) \<noteq> -1" if "i \<in> {1..n}" for i using that by blast
  have rng: "color (g_vertices s ! i) = -1 \<or>
          (0 \<le> color (g_vertices s ! i) \<and> color (g_vertices s ! i) < next_available_color_idx s)"
    if "i \<in> {1..n}" for i
    using inv that unfolding greedy_inv_def by blast
  have r: "\<forall>i \<in> {1..n}. 0 \<le> color (g_vertices s ! i) \<and> color (g_vertices s ! i) < next_available_color_idx s"
    using nun rng by blast
  have k: "0 \<le> next_available_color_idx s" using inv unfolding greedy_inv_def by auto
  have u: "\<forall>c. 0 \<le> c \<and> c < next_available_color_idx s \<longrightarrow>
          (\<exists>i \<in> {1..n}. color (g_vertices s ! i) = c)"
    using inv unfolding greedy_inv_def by blast
  have pp: "proper_partial n (g_vertices s)" using inv unfolding greedy_inv_def by blast
  show ?thesis unfolding complete_coloring_def using g k r u pp by blast
qed

lemma generic_greedy_complete:
  assumes wf: "well_formed n vs0" and srt: "std_sort_contract srt"
  shows "complete_coloring n vs0 (res_vertices (generic_greedy_coloring srt vs0 n alg))
           (res_colors (generic_greedy_coloring srt vs0 n alg)) \<and>
         \<not> res_warned (generic_greedy_coloring srt vs0 n alg)"
proof (cases "n = 0")
  case True
  have "proper_partial 0 (reset_colors vs0 0)" unfolding proper_partial_def by simp
  then have "complete_coloring 0 vs0 (reset_colors vs0 0) 0"
    unfolding complete_coloring_def by simp
  then show ?thesis using True by (simp add: generic_greedy_zero)
next
  case False
  then have n: "1 \<le> n" by simp
  obtain s w where l: "greedy_loop alg (snd (greedy_init srt vs0 n)) = (s, w)"
    by (cases "greedy_loop alg (snd (greedy_init srt vs0 n))")
  note i = greedy_init_inv[OF wf srt n]
  from greedy_loop_inv[OF i(1) l]
  have inv: "greedy_inv n s" and e: "uncolored_vertices_ptrs s = []" and w: "\<not> w"
    and g: "graph_of (g_vertices s) = graph_of vs0" using i(2) by simp_all
  show ?thesis
    using greedy_inv_final[OF inv e g] w by (simp add: generic_greedy_pos[OF n] l)
qed

lemma gradedD:
  "graded n vs \<Longrightarrow> i \<in> {1..n} \<Longrightarrow> 1 \<le> color (vs ! i) \<Longrightarrow>
   \<exists>u \<in> set (neighbors (vs ! i)). u \<noteq> i \<and> color (vs ! u) = color (vs ! i) - 1"
  unfolding graded_def by blast

lemma greedy_assign_graded:
  assumes inv: "greedy_inv n s" and gr: "graded n (g_vertices s)"
    and g: "graph_of vs = graph_of (g_vertices s)"
    and c: "map color vs = map color (g_vertices s)"
    and b: "b \<in> set (uncolored_vertices_ptrs s)"
  shows "graded n (g_vertices (greedy_assign s vs b))"
proof -
  let ?vs0 = "g_vertices s"
  let ?ch = "chosen_color_of s vs b"
  let ?vs' = "vs[b := (vs ! b)\<lparr>color := ?ch\<rparr>]"
  have wf0: "well_formed n ?vs0" using inv unfolding greedy_inv_def by blast
  have wf: "well_formed n vs" using well_formed_cong[OF g[symmetric] wf0] .
  have vi: "valid_indices n vs" using wf unfolding well_formed_def by blast
  have len: "length vs = Suc n" using vi by (rule valid_indices_length)
  have col: "color (vs ! i) = color (?vs0 ! i)" if "i \<in> {1..n}" for i
    using map_color_nth[OF c, of i] that len by simp
  have ptrs: "set (uncolored_vertices_ptrs s) = {i \<in> {1..n}. color (?vs0 ! i) = -1}"
    using inv unfolding greedy_inv_def by blast
  have bn: "b \<in> {1..n}" and cb0: "color (?vs0 ! b) = -1" using b ptrs by auto
  obtain k where nx: "next_available_color_idx s = int k" and pal: "color_palette s = map int [0..<k]"
    using inv unfolding greedy_inv_def by blast
  have rng0: "color (?vs0 ! i) = -1 \<or> (0 \<le> color (?vs0 ! i) \<and> color (?vs0 ! i) < int k)"
    if "i \<in> {1..n}" for i
    using inv that nx unfolding greedy_inv_def by simp
  have nbr: "neighbors (vs ! i) = neighbors (?vs0 ! i)" if "i \<in> {1..n}" for i
    using graph_of_nth(1)[OF g, of i] that len by simp
  have nbrange: "\<forall>nb \<in> set (neighbors (vs ! b)). color (vs ! nb) < int k"
  proof
    fix nb assume "nb \<in> set (neighbors (vs ! b))"
    then have r: "nb \<in> {1..n}" using valid_indices_range[OF vi bn] by blast
    show "color (vs ! nb) < int k" using rng0[OF r] col[OF r] by auto
  qed
  note cf = chosen_color_facts[OF nx pal nbrange]
  have col': "color (?vs' ! i) = (if i = b then ?ch else color (?vs0 ! i))" if "i \<in> {1..n}" for i
  proof -
    have "i < length vs" using that len by simp
    from nth_color_update[OF this] show ?thesis using col[OF that] by simp
  qed
  have nbr': "neighbors (?vs' ! i) = neighbors (vs ! i)" for i
    by (rule nth_neighbors_color_update)
  have "graded n ?vs'"
    unfolding graded_def
  proof (intro ballI impI)
    fix i assume i: "i \<in> {1..n}" and ci: "1 \<le> color (?vs' ! i)"
    show "\<exists>u \<in> set (neighbors (?vs' ! i)). u \<noteq> i \<and> color (?vs' ! u) = color (?vs' ! i) - 1"
    proof (cases "i = b")
      case True
      then have ch1: "1 \<le> ?ch" using ci col'[OF i] by simp
      then have "\<not> isColorValid (vs ! b) (?ch - 1) vs" using cf(4) by simp
      then obtain nb where nb: "nb \<in> set (neighbors (vs ! b))" and cnb: "color (vs ! nb) = ?ch - 1"
        unfolding isColorValid_iff by blast
      have r: "nb \<in> {1..n}" using valid_indices_range[OF vi bn nb] .
      have "nb \<noteq> b" using cnb col[OF bn] cb0 ch1 by auto
      moreover from this have "color (?vs' ! nb) = ?ch - 1" using col'[OF r] col[OF r] cnb by simp
      ultimately show ?thesis using nb True col'[OF i] nbr' by auto
    next
      case False
      then have e: "color (?vs' ! i) = color (?vs0 ! i)" using col'[OF i] by simp
      then have "1 \<le> color (?vs0 ! i)" using ci by simp
      from gradedD[OF gr i this] obtain u where u: "u \<in> set (neighbors (?vs0 ! i))"
        and ui: "u \<noteq> i" and cu: "color (?vs0 ! u) = color (?vs0 ! i) - 1" by blast
      have u': "u \<in> set (neighbors (vs ! i))" using u nbr[OF i] by simp
      have r: "u \<in> {1..n}" using valid_indices_range[OF vi i u'] .
      have "u \<noteq> b" using cu cb0 \<open>1 \<le> color (?vs0 ! i)\<close> by auto
      then have "color (?vs' ! u) = color (?vs0 ! u)" using col'[OF r] by simp
      then show ?thesis using u' ui cu e nbr' by auto
    qed
  qed
  then show ?thesis by (simp add: greedy_assign_fields)
qed

lemma greedy_loop_graded:
  "greedy_inv n s \<Longrightarrow> graded n (g_vertices s) \<Longrightarrow> greedy_loop alg s = (s', w) \<Longrightarrow>
   graded n (g_vertices s')"
proof (induction alg s rule: greedy_loop.induct)
  case (1 alg s)
  show ?case
  proof (cases "uncolored_vertices_ptrs s = []")
    case True
    then show ?thesis using "1.prems" by (simp add: greedy_loop.simps[of alg s])
  next
    case False
    obtain vs r where sel: "select_best alg (uncolored_vertices_ptrs s) (g_vertices s, None) = (vs, r)"
      by (cases "select_best alg (uncolored_vertices_ptrs s) (g_vertices s, None)")
    obtain b where r: "r = Some b" using select_best_nonempty[OF False sel] by blast
    have b: "b \<in> set (uncolored_vertices_ptrs s)" using select_best_member sel r by blast
    have keep: "graph_of vs = graph_of (g_vertices s)" "map color vs = map color (g_vertices s)"
      using select_best_keeps[OF sel] by simp_all
    have it: "greedy_iteration alg s = Continue (greedy_assign s vs b)"
      by (simp add: greedy_iteration_def sel r)
    have l: "greedy_loop alg (greedy_assign s vs b) = (s', w)"
      using "1.prems"(3) False it by (simp add: greedy_loop.simps[of alg s])
    show ?thesis
      using "1.IH"[OF False it greedy_assign_inv[OF "1.prems"(1) keep b]
          greedy_assign_graded[OF "1.prems"(1,2) keep b] l] .
  qed
qed

lemma generic_greedy_graded:
  assumes wf: "well_formed n vs0" and srt: "std_sort_contract srt"
  shows "graded n (res_vertices (generic_greedy_coloring srt vs0 n alg))"
proof (cases "n = 0")
  case True
  then show ?thesis unfolding graded_def by simp
next
  case False
  then have n: "1 \<le> n" by simp
  let ?s = "greedy_start srt vs0 n"
  obtain s w where l: "greedy_loop alg (snd (greedy_init srt vs0 n)) = (s, w)"
    by (cases "greedy_loop alg (snd (greedy_init srt vs0 n))")
  have len: "length vs0 = Suc n" using wf unfolding well_formed_def valid_indices_def by blast
  have "color (g_vertices ?s ! i) = -1" if "i \<in> {1..n}" for i
    using reset_colors_color[OF that, of vs0] that len by (simp add: greedy_start_def Let_def)
  then have g0: "graded n (g_vertices ?s)" unfolding graded_def by simp
  have "uncolored_vertices_ptrs ?s \<noteq> []" using greedy_start_ptrs(1)[OF srt, of vs0 n] n by auto
  then have b: "uncolored_vertices_ptrs ?s ! 0 \<in> set (uncolored_vertices_ptrs ?s)"
    by (simp add: nth_mem del: set_conv_nth)
  have g1: "graded n (g_vertices (snd (greedy_init srt vs0 n)))"
    unfolding greedy_init_eq snd_conv
    by (rule greedy_assign_graded[OF greedy_start_inv[OF wf srt] g0 refl refl b])
  from greedy_loop_graded[OF greedy_init_inv(1)[OF wf srt n] g1 l]
  show ?thesis by (simp add: generic_greedy_pos[OF n] l)
qed

section \<open>Facts about the scans of the RLF driver\<close>

lemma find_max_post_take:
  assumes unc: "color (vs ! i) = -1" and better: "m = None \<or> d < degree (vs ! i)"
    and post: "find_max_post vs rest (Some i) (degree (vs ! i)) res"
  shows "find_max_post vs (i # rest) m d res"
proof (cases res)
  case (Pair r d')
  from post Pair obtain v where r: "r = Some v"
    unfolding find_max_post_def by (cases r) auto
  from post Pair r have d': "d' = degree (vs ! v)"
    and le: "\<forall>j \<in> set rest. color (vs ! j) = -1 \<longrightarrow> degree (vs ! j) \<le> d'"
    and ile: "degree (vs ! i) \<le> d'"
    and dis: "i = v \<or> (\<exists>pre post. rest = pre @ v # post \<and> color (vs ! v) = -1 \<and>
                degree (vs ! i) < d' \<and>
                (\<forall>j \<in> set pre. color (vs ! j) = -1 \<longrightarrow> degree (vs ! j) < d'))"
    unfolding find_max_post_def by auto
  have dd': "m \<noteq> None \<longrightarrow> d < d'" using better ile by auto
  have ex: "\<exists>pre post. i # rest = pre @ v # post \<and> color (vs ! v) = -1 \<and> (m \<noteq> None \<longrightarrow> d < d') \<and>
                (\<forall>j \<in> set pre. color (vs ! j) = -1 \<longrightarrow> degree (vs ! j) < d')"
    using dis
  proof
    assume "i = v"
    then have "i # rest = [] @ v # rest \<and> color (vs ! v) = -1" using unc by simp
    then show ?thesis using dd' by (intro exI[of _ "[]"] exI[of _ rest]) simp
  next
    assume "\<exists>pre post. rest = pre @ v # post \<and> color (vs ! v) = -1 \<and> degree (vs ! i) < d' \<and>
                (\<forall>j \<in> set pre. color (vs ! j) = -1 \<longrightarrow> degree (vs ! j) < d')"
    then obtain pre post where p: "rest = pre @ v # post" "color (vs ! v) = -1"
      "degree (vs ! i) < d'"
      "\<forall>j \<in> set pre. color (vs ! j) = -1 \<longrightarrow> degree (vs ! j) < d'" by blast
    then show ?thesis using dd' by (intro exI[of _ "i # pre"] exI[of _ post]) simp
  qed
  have le': "\<forall>j \<in> set (i # rest). color (vs ! j) = -1 \<longrightarrow> degree (vs ! j) \<le> d'"
    using le ile by simp
  show ?thesis
    unfolding find_max_post_def Pair r using d' le' dd' ex by auto
qed

lemma find_max_post_skip:
  assumes skip: "color (vs ! i) \<noteq> -1 \<or> (m \<noteq> None \<and> degree (vs ! i) \<le> d)"
    and post: "find_max_post vs rest m d res"
  shows "find_max_post vs (i # rest) m d res"
proof (cases res)
  case (Pair r d')
  show ?thesis
  proof (cases r)
    case None
    then have "m = None \<and> (\<forall>j \<in> set rest. color (vs ! j) \<noteq> -1)"
      using post Pair unfolding find_max_post_def by simp
    moreover from this have "color (vs ! i) \<noteq> -1" using skip by blast
    ultimately show ?thesis unfolding find_max_post_def Pair None by simp
  next
    case (Some v)
    from post Pair Some have d': "d' = degree (vs ! v)"
      and le: "\<forall>j \<in> set rest. color (vs ! j) = -1 \<longrightarrow> degree (vs ! j) \<le> d'"
      and dd': "m \<noteq> None \<longrightarrow> d \<le> d'"
      and dis: "m = Some v \<or> (\<exists>pre post. rest = pre @ v # post \<and> color (vs ! v) = -1 \<and>
                (m \<noteq> None \<longrightarrow> d < d') \<and>
                (\<forall>j \<in> set pre. color (vs ! j) = -1 \<longrightarrow> degree (vs ! j) < d'))"
      unfolding find_max_post_def by auto
    have ile: "color (vs ! i) = -1 \<longrightarrow> degree (vs ! i) \<le> d'" using skip dd' by auto
    have le': "\<forall>j \<in> set (i # rest). color (vs ! j) = -1 \<longrightarrow> degree (vs ! j) \<le> d'"
      using le ile by simp
    have dis': "m = Some v \<or> (\<exists>pre post. i # rest = pre @ v # post \<and> color (vs ! v) = -1 \<and>
                (m \<noteq> None \<longrightarrow> d < d') \<and>
                (\<forall>j \<in> set pre. color (vs ! j) = -1 \<longrightarrow> degree (vs ! j) < d'))"
      using dis
    proof
      assume "m = Some v"
      then show ?thesis by simp
    next
      assume "\<exists>pre post. rest = pre @ v # post \<and> color (vs ! v) = -1 \<and>
                (m \<noteq> None \<longrightarrow> d < d') \<and>
                (\<forall>j \<in> set pre. color (vs ! j) = -1 \<longrightarrow> degree (vs ! j) < d')"
      then obtain pre post where p: "rest = pre @ v # post" "color (vs ! v) = -1"
        "m \<noteq> None \<longrightarrow> d < d'"
        "\<forall>j \<in> set pre. color (vs ! j) = -1 \<longrightarrow> degree (vs ! j) < d'" by blast
      have "color (vs ! i) = -1 \<longrightarrow> degree (vs ! i) < d'" using skip p(3) by auto
      then have "i # rest = (i # pre) @ v # post \<and> color (vs ! v) = -1 \<and>
                (m \<noteq> None \<longrightarrow> d < d') \<and>
                (\<forall>j \<in> set (i # pre). color (vs ! j) = -1 \<longrightarrow> degree (vs ! j) < d')"
        using p by simp
      then show ?thesis by blast
    qed
    show ?thesis
      unfolding find_max_post_def Pair Some using d' le' dd' dis' by simp
  qed
qed

lemma find_max_scan_char:
  "m = None \<or> (\<exists>b. m = Some b \<and> d = degree (vs ! b)) \<Longrightarrow>
   find_max_post vs ns m d (find_max_scan vs ns (m, d))"
proof (induction ns arbitrary: m d)
  case Nil
  then show ?case unfolding find_max_post_def by (cases m) auto
next
  case (Cons i rest)
  show ?case
  proof (cases "color (vs ! i) = -1 \<and> (m = None \<or> degree (vs ! i) > d)")
    case True
    have eq: "find_max_scan vs (i # rest) (m, d) = find_max_scan vs rest (Some i, degree (vs ! i))"
      using True by auto
    have "find_max_post vs rest (Some i) (degree (vs ! i))
            (find_max_scan vs rest (Some i, degree (vs ! i)))"
      by (rule Cons.IH) simp
    then show ?thesis unfolding eq using True by (intro find_max_post_take) auto
  next
    case False
    have eq: "find_max_scan vs (i # rest) (m, d) = find_max_scan vs rest (m, d)"
      using False by auto
    have "find_max_post vs rest m d (find_max_scan vs rest (m, d))"
      by (rule Cons.IH[OF Cons.prems])
    then show ?thesis unfolding eq using False by (intro find_max_post_skip) auto
  qed
qed

lemma upt_split_before:
  assumes "[1..<Suc n] = pre @ v # post" and "i \<in> {1..n}" and "i < v"
  shows "i \<in> set pre"
proof -
  have "sorted (pre @ v # post)" using assms(1) sorted_upt[of 1 "Suc n"] by simp
  then have "\<forall>x \<in> set post. v \<le> x" by (simp add: sorted_append)
  then have "i \<notin> set post" using assms(3) by auto
  moreover have "i \<in> set (pre @ v # post)" using assms(1,2) by (metis atLeastAtMost_iff atLeastLessThan_iff less_Suc_eq_le set_upt)
  ultimately show ?thesis using assms(3) by auto
qed

lemma find_max_None_iff:
  "find_max_degree_uncolored_vertex vs n = None \<longleftrightarrow> (\<forall>i \<in> {1..n}. color (vs ! i) \<noteq> -1)"
proof -
  define ns where "ns = [1..<Suc n]"
  obtain r d' where res: "find_max_scan vs ns (None, -1) = (r, d')"
    by (cases "find_max_scan vs ns (None, -1)")
  have post: "find_max_post vs ns None (-1) (r, d')"
    using find_max_scan_char[of None "-1" vs ns] res by simp
  have set: "set ns = {1..n}"
    unfolding ns_def by (simp add: atLeastLessThanSuc_atLeastAtMost del: upt_Suc)
  have fm: "find_max_degree_uncolored_vertex vs n = r"
    unfolding find_max_degree_uncolored_vertex_def ns_def[symmetric] res by simp
  show ?thesis
  proof (cases r)
    case None
    then have "\<forall>i \<in> set ns. color (vs ! i) \<noteq> -1"
      using post unfolding find_max_post_def by simp
    then have "\<forall>i \<in> {1..n}. color (vs ! i) \<noteq> -1" unfolding set .
    then show ?thesis using fm None by simp
  next
    case (Some v)
    then have "\<exists>pre post. ns = pre @ v # post \<and> color (vs ! v) = -1"
      using post unfolding find_max_post_def by auto
    then obtain pre post where "ns = pre @ v # post" and c: "color (vs ! v) = -1" by blast
    then have "v \<in> set ns" by simp
    then have "v \<in> {1..n}" using set by simp
    then show ?thesis using c fm Some by auto
  qed
qed

lemma find_max_Some:
  assumes "find_max_degree_uncolored_vertex vs n = Some v"
  shows "v \<in> {1..n}" and "color (vs ! v) = -1"
    and "\<forall>i \<in> {1..n}. color (vs ! i) = -1 \<longrightarrow> degree (vs ! i) \<le> degree (vs ! v)"
    and "\<forall>i \<in> {1..n}. i < v \<and> color (vs ! i) = -1 \<longrightarrow> degree (vs ! i) < degree (vs ! v)"
proof -
  define ns where "ns = [1..<Suc n]"
  obtain r d' where res: "find_max_scan vs ns (None, -1) = (r, d')"
    by (cases "find_max_scan vs ns (None, -1)")
  have r: "r = Some v"
    using assms unfolding find_max_degree_uncolored_vertex_def ns_def[symmetric] res by simp
  have post: "find_max_post vs ns None (-1) (Some v, d')"
    using find_max_scan_char[of None "-1" vs ns] res r by simp
  have set: "set ns = {1..n}"
    unfolding ns_def by (simp add: atLeastLessThanSuc_atLeastAtMost del: upt_Suc)
  from post have d': "d' = degree (vs ! v)"
    and le: "\<forall>i \<in> set ns. color (vs ! i) = -1 \<longrightarrow> degree (vs ! i) \<le> d'"
    and ex: "\<exists>pre post. ns = pre @ v # post \<and> color (vs ! v) = -1 \<and>
               (\<forall>i \<in> set pre. color (vs ! i) = -1 \<longrightarrow> degree (vs ! i) < d')"
    unfolding find_max_post_def by auto
  from ex obtain pre post where sp: "ns = pre @ v # post" and c: "color (vs ! v) = -1"
    and lt: "\<forall>i \<in> set pre. color (vs ! i) = -1 \<longrightarrow> degree (vs ! i) < d'" by blast
  have "v \<in> set ns" using sp by simp
  then show "v \<in> {1..n}" using set by simp
  show "color (vs ! v) = -1" using c .
  show "\<forall>i \<in> {1..n}. color (vs ! i) = -1 \<longrightarrow> degree (vs ! i) \<le> degree (vs ! v)"
    using le unfolding set d' .
  show "\<forall>i \<in> {1..n}. i < v \<and> color (vs ! i) = -1 \<longrightarrow> degree (vs ! i) < degree (vs ! v)"
  proof (intro ballI impI)
    fix i assume i: "i \<in> {1..n}" and h: "i < v \<and> color (vs ! i) = -1"
    have "i \<in> set pre" using upt_split_before[OF sp[unfolded ns_def] i] h by simp
    then show "degree (vs ! i) < degree (vs ! v)" using lt h d' by simp
  qed
qed

lemma nth_color_heuristic_update:
  "color (vs[i := (vs ! i)\<lparr>heuristic_value := h\<rparr>] ! k) = color (vs ! k)"
  by (cases "i < length vs") (simp_all add: nth_list_update list_update_beyond)

lemma rlf_scan_char:
  assumes "\<forall>k. color (vs ! k) = col k"
    and "rlf_scan f ks (vs, cand, m) = (vs', cand', m')"
  shows "graph_of vs' = graph_of vs \<and> map color vs' = map color vs \<and>
         (case cand' of
            None \<Rightarrow> cand = None \<and> (\<forall>k \<in> set ks. \<not> (col k = -1 \<and> \<not> f ! k))
          | Some j \<Rightarrow> cand = Some j \<or> (j \<in> set ks \<and> col j = -1 \<and> \<not> f ! j))"
  using assms
proof (induction ks arbitrary: vs cand m)
  case Nil
  then show ?case by (cases cand) auto
next
  case (Cons k ks)
  show ?case
  proof (cases "col k = -1 \<and> \<not> f ! k")
    case False
    then have "rlf_scan f ks (vs, cand, m) = (vs', cand', m')"
      using Cons.prems by auto
    from Cons.IH[OF Cons.prems(1) this] False show ?thesis
      by (cases cand') auto
  next
    case True
    let ?vs1 = "vs[k := (vs ! k)\<lparr>heuristic_value := adj_in_U f (neighbors (vs ! k))\<rparr>]"
    have c1: "\<forall>j. color (?vs1 ! j) = col j"
      using Cons.prems(1) by (simp add: nth_color_heuristic_update)
    have "\<exists>c m1. rlf_scan f ks (?vs1, Some c, m1) = (vs', cand', m') \<and> (c = k \<or> cand = Some c)"
      using Cons.prems True by (cases cand) (auto simp: Let_def split: if_splits)
    then obtain c m1 where sc: "rlf_scan f ks (?vs1, Some c, m1) = (vs', cand', m')"
      and ck: "c = k \<or> cand = Some c" by blast
    from Cons.IH[OF c1 sc] have g: "graph_of vs' = graph_of ?vs1"
      and mc: "map color vs' = map color ?vs1"
      and cs: "case cand' of None \<Rightarrow> Some c = None \<and> (\<forall>k \<in> set ks. \<not> (col k = -1 \<and> \<not> f ! k))
          | Some j \<Rightarrow> Some c = Some j \<or> (j \<in> set ks \<and> col j = -1 \<and> \<not> f ! j)"
      by blast+
    from cs obtain j where j: "cand' = Some j" by (cases cand') auto
    have "cand = Some j \<or> (j \<in> set (k # ks) \<and> col j = -1 \<and> \<not> f ! j)"
      using cs j ck True by auto
    then show ?thesis using g mc j by simp
  qed
qed

lemma mark_forbidden_length [simp]: "length (mark_forbidden f nbs) = length f"
  unfolding mark_forbidden_def by (induction nbs arbitrary: f) simp_all

lemma mark_forbidden_nth:
  "k < length f \<Longrightarrow> mark_forbidden f nbs ! k \<longleftrightarrow> f ! k \<or> k \<in> set nbs"
  unfolding mark_forbidden_def
proof (induction nbs arbitrary: f)
  case Nil
  then show ?case by simp
next
  case (Cons a nbs)
  have l: "k < length (f[a := True])" using Cons.prems by simp
  have "f[a := True] ! k \<longleftrightarrow> f ! k \<or> k = a"
    using Cons.prems by (cases "k = a") (simp_all add: nth_list_update)
  then show ?case using Cons.IH[OF l] by auto
qed

section \<open>Invariants of the RLF driver\<close>

lemma nth_beyond_eq: "length xs = length ys \<Longrightarrow> length xs \<le> i \<Longrightarrow> xs ! i = ys ! i"
proof (induction xs arbitrary: ys i)
  case Nil
  then show ?case by simp
next
  case (Cons x xs)
  then obtain y ys' where ys: "ys = y # ys'" by (cases ys) auto
  from Cons.prems obtain i' where i: "i = Suc i'" by (cases i) auto
  show ?case using Cons.IH[of ys' i'] Cons.prems ys i by simp
qed

lemma same_view:
  assumes g: "graph_of vs' = graph_of vs" and c: "map color vs' = map color vs"
  shows "color (vs' ! i) = color (vs ! i)" and "neighbors (vs' ! i) = neighbors (vs ! i)"
    and "degree (vs' ! i) = degree (vs ! i)"
proof -
  have len: "length vs' = length vs" using graph_of_length[OF g] .
  show "color (vs' ! i) = color (vs ! i)"
  proof (cases "i < length vs'")
    case True
    then show ?thesis using map_color_nth[OF c] by simp
  next
    case False
    then show ?thesis using nth_beyond_eq[OF len, of i] by simp
  qed
  show "neighbors (vs' ! i) = neighbors (vs ! i)"
  proof (cases "i < length vs'")
    case True
    then show ?thesis using graph_of_nth(1)[OF g] by simp
  next
    case False
    then show ?thesis using nth_beyond_eq[OF len, of i] by simp
  qed
  show "degree (vs' ! i) = degree (vs ! i)"
  proof (cases "i < length vs'")
    case True
    then show ?thesis using graph_of_nth(2)[OF g] by simp
  next
    case False
    then show ?thesis using nth_beyond_eq[OF len, of i] by simp
  qed
qed

lemma rlf_inner_inv_cong:
  assumes g: "graph_of vs' = graph_of vs" and c: "map color vs' = map color vs"
    and inv: "rlf_inner_inv n c vs tot forbidden"
  shows "rlf_inner_inv n c vs' tot forbidden"
proof -
  note v = same_view[OF g c]
  have wf: "well_formed n vs'"
    using well_formed_cong[OF g[symmetric]] inv unfolding rlf_inner_inv_def by blast
  have cs: "colored_set n vs' = colored_set n vs" unfolding colored_set_def v ..
  have pp: "proper_partial n vs' = proper_partial n vs" unfolding proper_partial_def v ..
  have gr: "graded n vs' = graded n vs" unfolding graded_def v ..
  have bl: "blocked n c vs' = blocked n c vs" unfolding blocked_def v ..
  show ?thesis
    using inv wf unfolding rlf_inner_inv_def cs pp gr bl v by blast
qed

lemma nth_color_update_all:
  "j < length vs \<Longrightarrow> color (vs[j := (vs ! j)\<lparr>color := c\<rparr>] ! i) = (if i = j then c else color (vs ! i))"
  by (cases "i = j") simp_all

lemma colored_set_insert:
  assumes "j \<in> {1..n}" "j < length vs" "c \<noteq> -1"
  shows "colored_set n (vs[j := (vs ! j)\<lparr>color := c\<rparr>]) = insert j (colored_set n vs)"
  unfolding colored_set_def nth_color_update_all[OF assms(2)] using assms(1,3) by auto

lemma card_colored_le: "card (colored_set n vs) \<le> n"
proof -
  have "colored_set n vs \<subseteq> {1..n}" unfolding colored_set_def by blast
  then have "card (colored_set n vs) \<le> card {1..n}" by (intro card_mono) simp_all
  then show ?thesis by simp
qed

lemma card_colored_Suc:
  assumes "j \<in> {1..n}" "j < length vs" "c \<noteq> -1" "color (vs ! j) = -1"
  shows "card (colored_set n (vs[j := (vs ! j)\<lparr>color := c\<rparr>])) = Suc (card (colored_set n vs))"
proof -
  have fin: "finite (colored_set n vs)" unfolding colored_set_def by simp
  have "j \<notin> colored_set n vs" using assms(4) unfolding colored_set_def by simp
  then show ?thesis unfolding colored_set_insert[OF assms(1-3)] using fin by simp
qed

lemma card_colored_full:
  assumes "card (colored_set n vs) = n" and "i \<in> {1..n}"
  shows "color (vs ! i) \<noteq> -1"
proof -
  have "colored_set n vs \<subseteq> {1..n}" unfolding colored_set_def by blast
  moreover have "card (colored_set n vs) = card {1..n}" using assms(1) by simp
  ultimately have "colored_set n vs = {1..n}" by (intro card_subset_eq) simp_all
  then show ?thesis using assms(2) unfolding colored_set_def by blast
qed

lemma card_colored_less:
  assumes "card (colored_set n vs) < n"
  shows "\<exists>i \<in> {1..n}. color (vs ! i) = -1"
proof (rule ccontr)
  assume "\<not> (\<exists>i \<in> {1..n}. color (vs ! i) = -1)"
  then have "colored_set n vs = {1..n}" unfolding colored_set_def by blast
  then show False using assms by simp
qed

lemma blockedD:
  "blocked n c vs \<Longrightarrow> 1 \<le> c \<Longrightarrow> k \<in> {1..n} \<Longrightarrow> color (vs ! k) = -1 \<Longrightarrow>
   \<exists>u \<in> set (neighbors (vs ! k)). color (vs ! u) = c - 1"
  unfolding blocked_def by blast

lemma graded_color_vertex:
  assumes gr: "graded n vs" and bl: "blocked n c vs" and j: "j \<in> {1..n}" "j < length vs"
    and cj: "color (vs ! j) = -1"
  shows "graded n (vs[j := (vs ! j)\<lparr>color := c\<rparr>])"
  unfolding graded_def nth_color_update_all[OF j(2)] nth_neighbors_color_update
proof (intro ballI impI)
  fix i assume i: "i \<in> {1..n}" and ci: "1 \<le> (if i = j then c else color (vs ! i))"
  show "\<exists>u \<in> set (neighbors (vs ! i)). u \<noteq> i \<and>
          (if u = j then c else color (vs ! u)) = (if i = j then c else color (vs ! i)) - 1"
  proof (cases "i = j")
    case True
    then have c1: "1 \<le> c" using ci by simp
    from blockedD[OF bl c1 j(1) cj] obtain u where u: "u \<in> set (neighbors (vs ! j))"
      and cu: "color (vs ! u) = c - 1" by blast
    have "u \<noteq> j" using cu cj c1 by auto
    then show ?thesis using u cu True by auto
  next
    case False
    then have c1: "1 \<le> color (vs ! i)" using ci by simp
    from gradedD[OF gr i c1] obtain u where u: "u \<in> set (neighbors (vs ! i))" and ui: "u \<noteq> i"
      and cu: "color (vs ! u) = color (vs ! i) - 1" by blast
    have "u \<noteq> j" using cu cj c1 by auto
    then show ?thesis using u ui cu False by auto
  qed
qed

lemma blocked_color_vertex:
  assumes bl: "blocked n c vs" and j: "j < length vs" and cj: "color (vs ! j) = -1"
    and c': "c' \<noteq> -1"
  shows "blocked n c (vs[j := (vs ! j)\<lparr>color := c'\<rparr>])"
  unfolding blocked_def nth_color_update_all[OF j] nth_neighbors_color_update
proof (intro ballI impI)
  fix k assume c1: "1 \<le> c" and k: "k \<in> {1..n}" and ck: "(if k = j then c' else color (vs ! k)) = -1"
  have kj: "k \<noteq> j" using ck c' by auto
  then have "color (vs ! k) = -1" using ck by simp
  from blockedD[OF bl c1 k this] obtain u where u: "u \<in> set (neighbors (vs ! k))"
    and cu: "color (vs ! u) = c - 1" by blast
  have "u \<noteq> j" using cu cj c1 by auto
  then show "\<exists>u \<in> set (neighbors (vs ! k)). (if u = j then c' else color (vs ! u)) = c - 1"
    using u cu by auto
qed

lemma rlf_inner_step_inv:
  assumes inv: "rlf_inner_inv n c vs tot f"
    and j: "j \<in> {1..n}" and cj: "color (vs ! j) = -1" and fj: "\<not> f ! j"
  shows "rlf_inner_inv n c (vs[j := (vs ! j)\<lparr>color := c\<rparr>]) (tot + 1)
           (mark_forbidden f (neighbors (vs ! j)))"
proof -
  let ?vs' = "vs[j := (vs ! j)\<lparr>color := c\<rparr>]"
  let ?f' = "mark_forbidden f (neighbors (vs ! j))"
  have wf: "well_formed n vs" and lf: "length f = Suc n" and c0: "0 \<le> c"
    and tot: "tot = int (card (colored_set n vs))"
    and pp: "proper_partial n vs" and gr: "graded n vs" and bl: "blocked n c vs"
    using inv unfolding rlf_inner_inv_def by blast+
  have rng: "color (vs ! i) = -1 \<or> (0 \<le> color (vs ! i) \<and> color (vs ! i) \<le> c)"
    if "i \<in> {1..n}" for i using inv that unfolding rlf_inner_inv_def by blast
  have fb: "f ! k \<longleftrightarrow> (\<exists>u \<in> {1..n}. color (vs ! u) = c \<and> k \<in> set (neighbors (vs ! u)))"
    if "k \<in> {1..n}" for k using inv that unfolding rlf_inner_inv_def by blast
  have used: "\<exists>i \<in> {1..n}. color (vs ! i) = c'" if "0 \<le> c'" "c' \<le> c" for c'
    using inv that unfolding rlf_inner_inv_def by blast
  have vi: "valid_indices n vs" and sym: "symmetric_adjacency n vs"
    using wf unfolding well_formed_def by blast+
  have len: "length vs = Suc n" using vi by (rule valid_indices_length)
  have jl: "j < length vs" using j len by simp
  have cm1: "c \<noteq> -1" using c0 by simp
  note col' = nth_color_update_all[OF jl, of c]
  note nb' = nth_neighbors_color_update[of vs j c]
  have wf': "well_formed n ?vs'" by (rule well_formed_cong[OF _ wf]) simp
  have lf': "length ?f' = Suc n" using lf by simp
  have tot': "tot + 1 = int (card (colored_set n ?vs'))"
    unfolding card_colored_Suc[OF j jl cm1 cj] tot by simp
  have rng': "\<forall>i \<in> {1..n}. color (?vs' ! i) = -1 \<or> (0 \<le> color (?vs' ! i) \<and> color (?vs' ! i) \<le> c)"
    unfolding col' using rng c0 by simp
  have fb': "\<forall>k \<in> {1..n}. ?f' ! k \<longleftrightarrow>
       (\<exists>u \<in> {1..n}. color (?vs' ! u) = c \<and> k \<in> set (neighbors (?vs' ! u)))"
  proof
    fix k assume k: "k \<in> {1..n}"
    have kl: "k < length f" using k lf by simp
    have "?f' ! k \<longleftrightarrow> f ! k \<or> k \<in> set (neighbors (vs ! j))"
      using mark_forbidden_nth[OF kl] .
    also have "\<dots> \<longleftrightarrow> (\<exists>u \<in> {1..n}. color (vs ! u) = c \<and> k \<in> set (neighbors (vs ! u))) \<or>
                       k \<in> set (neighbors (vs ! j))"
      using fb[OF k] by simp
    also have "\<dots> \<longleftrightarrow> (\<exists>u \<in> {1..n}. (if u = j then c else color (vs ! u)) = c \<and>
                              k \<in> set (neighbors (vs ! u)))"
    proof
      assume "(\<exists>u \<in> {1..n}. color (vs ! u) = c \<and> k \<in> set (neighbors (vs ! u))) \<or>
                       k \<in> set (neighbors (vs ! j))"
      then show "\<exists>u \<in> {1..n}. (if u = j then c else color (vs ! u)) = c \<and>
                              k \<in> set (neighbors (vs ! u))"
      proof
        assume "\<exists>u \<in> {1..n}. color (vs ! u) = c \<and> k \<in> set (neighbors (vs ! u))"
        then obtain u where "u \<in> {1..n}" "color (vs ! u) = c" "k \<in> set (neighbors (vs ! u))"
          by blast
        then show ?thesis by (intro bexI[of _ u]) simp_all
      next
        assume "k \<in> set (neighbors (vs ! j))"
        then show ?thesis using j by (intro bexI[of _ j]) simp_all
      qed
    next
      assume "\<exists>u \<in> {1..n}. (if u = j then c else color (vs ! u)) = c \<and>
                              k \<in> set (neighbors (vs ! u))"
      then obtain u where u: "u \<in> {1..n}" "(if u = j then c else color (vs ! u)) = c"
        "k \<in> set (neighbors (vs ! u))" by blast
      show "(\<exists>u \<in> {1..n}. color (vs ! u) = c \<and> k \<in> set (neighbors (vs ! u))) \<or>
                       k \<in> set (neighbors (vs ! j))"
      proof (cases "u = j")
        case True
        then show ?thesis using u(3) by simp
      next
        case False
        then have "color (vs ! u) = c" using u(2) by simp
        then show ?thesis using u(1,3) by blast
      qed
    qed
    finally show "?f' ! k \<longleftrightarrow>
       (\<exists>u \<in> {1..n}. color (?vs' ! u) = c \<and> k \<in> set (neighbors (?vs' ! u)))"
      unfolding col' nb' .
  qed
  have used': "\<forall>c'. 0 \<le> c' \<and> c' \<le> c \<longrightarrow> (\<exists>i \<in> {1..n}. color (?vs' ! i) = c')"
  proof (intro allI impI)
    fix c' assume h: "0 \<le> c' \<and> c' \<le> c"
    then obtain i where i: "i \<in> {1..n}" and ci: "color (vs ! i) = c'" using used by blast
    have "i \<noteq> j" using ci cj h by auto
    then have "color (?vs' ! i) = c'" unfolding col' using ci by simp
    then show "\<exists>i \<in> {1..n}. color (?vs' ! i) = c'" using i by blast
  qed
  have free: "\<forall>v \<in> set (neighbors (vs ! j)). v \<noteq> j \<longrightarrow> color (vs ! v) \<noteq> c"
  proof (intro ballI impI)
    fix v assume v: "v \<in> set (neighbors (vs ! j))" and "v \<noteq> j"
    have vr: "v \<in> {1..n}" using valid_indices_range[OF vi j v] .
    have jv: "j \<in> set (neighbors (vs ! v))" using symmetric_adjacencyD[OF sym j v] .
    show "color (vs ! v) \<noteq> c"
    proof
      assume "color (vs ! v) = c"
      then have "f ! j" using fb[OF j] vr jv by blast
      then show False using fj by simp
    qed
  qed
  have pp': "proper_partial n ?vs'" using color_vertex_proper[OF wf j pp free] .
  have gr': "graded n ?vs'" using graded_color_vertex[OF gr bl j jl cj] .
  have bl': "blocked n c ?vs'" using blocked_color_vertex[OF bl jl cj cm1] .
  show ?thesis
    unfolding rlf_inner_inv_def
    using wf' lf' c0 tot' rng' fb' used' pp' gr' bl' by blast
qed

lemma rlf_inner_loop_correct:
  assumes "rlf_inner_inv n c vs tot f"
  shows "\<exists>vs' tot' f'. rlf_inner_loop n c (vs, tot, f) = Some (vs', tot', f') \<and>
           rlf_inner_inv n c vs' tot' f' \<and> graph_of vs' = graph_of vs \<and> tot \<le> tot' \<and>
           (\<forall>k \<in> {1..n}. color (vs' ! k) = -1 \<longrightarrow> f' ! k) \<and>
           (\<forall>i. color (vs ! i) \<noteq> -1 \<or> i \<notin> {1..n} \<longrightarrow> color (vs' ! i) = color (vs ! i))"
  using assms
proof (induction "n - card (colored_set n vs)" arbitrary: vs tot f rule: less_induct)
  case less
  define ns where "ns = [1..<Suc n]"
  have set: "set ns = {1..n}"
    unfolding ns_def by (simp add: atLeastLessThanSuc_atLeastAtMost del: upt_Suc)
  obtain vs1 cand m where sc: "rlf_scan f ns (vs, None, -1) = (vs1, cand, m)"
    by (cases "rlf_scan f ns (vs, None, -1)")
  have ch: "graph_of vs1 = graph_of vs \<and> map color vs1 = map color vs \<and>
         (case cand of
            None \<Rightarrow> (None :: nat option) = None \<and>
              (\<forall>k \<in> set ns. \<not> (color (vs ! k) = -1 \<and> \<not> f ! k))
          | Some j \<Rightarrow> None = Some j \<or> (j \<in> set ns \<and> color (vs ! j) = -1 \<and> \<not> f ! j))"
    by (rule rlf_scan_char[OF _ sc]) simp
  then have g1: "graph_of vs1 = graph_of vs" and c1: "map color vs1 = map color vs" by blast+
  note v = same_view[OF g1 c1]
  have inv1: "rlf_inner_inv n c vs1 tot f" using rlf_inner_inv_cong[OF g1 c1 less.prems] .
  have unf: "rlf_inner_loop n c (vs, tot, f) =
     (case rlf_scan f ns (vs, None, -1) of
           (vs, None, m) \<Rightarrow> Some (vs, tot, f)
         | (vs, Some j, m) \<Rightarrow>
             rlf_inner_loop n c
               (vs[j := (vs ! j)\<lparr>color := c\<rparr>], tot + 1, mark_forbidden f (neighbors (vs ! j))))"
    unfolding ns_def by (subst rlf_inner_loop.simps) simp
  show ?case
  proof (cases cand)
    case None
    have ex: "\<forall>k \<in> {1..n}. color (vs1 ! k) = -1 \<longrightarrow> f ! k"
      using ch None unfolding set v by auto
    have "rlf_inner_loop n c (vs, tot, f) = Some (vs1, tot, f)"
      unfolding unf sc None by simp
    then show ?thesis using inv1 g1 ex v(1) by auto
  next
    case (Some j)
    then have j: "j \<in> {1..n}" and cj: "color (vs1 ! j) = -1" and fj: "\<not> f ! j"
      using ch unfolding set v by auto
    let ?vs2 = "vs1[j := (vs1 ! j)\<lparr>color := c\<rparr>]"
    let ?f2 = "mark_forbidden f (neighbors (vs1 ! j))"
    have inv2: "rlf_inner_inv n c ?vs2 (tot + 1) ?f2"
      using rlf_inner_step_inv[OF inv1 j cj fj] .
    have len: "length vs1 = Suc n"
      using inv1 unfolding rlf_inner_inv_def well_formed_def valid_indices_def by blast
    have jl: "j < length vs1" using j len by simp
    have c0: "c \<noteq> -1" using inv1 unfolding rlf_inner_inv_def by auto
    have cs1: "colored_set n vs1 = colored_set n vs" unfolding colored_set_def v ..
    have card2: "card (colored_set n ?vs2) = Suc (card (colored_set n vs))"
      using card_colored_Suc[OF j jl c0 cj] cs1 by simp
    have "card (colored_set n ?vs2) \<le> n" by (rule card_colored_le)
    then have dec: "n - card (colored_set n ?vs2) < n - card (colored_set n vs)"
      using card2 by simp
    from less.hyps[OF dec inv2] obtain vs' tot' f' where
      r: "rlf_inner_loop n c (?vs2, tot + 1, ?f2) = Some (vs', tot', f')"
      and inv': "rlf_inner_inv n c vs' tot' f'" and g': "graph_of vs' = graph_of ?vs2"
      and t': "tot + 1 \<le> tot'" and ex': "\<forall>k \<in> {1..n}. color (vs' ! k) = -1 \<longrightarrow> f' ! k"
      and kp': "\<forall>i. color (?vs2 ! i) \<noteq> -1 \<or> i \<notin> {1..n} \<longrightarrow> color (vs' ! i) = color (?vs2 ! i)"
      by blast
    have kp: "\<forall>i. color (vs ! i) \<noteq> -1 \<or> i \<notin> {1..n} \<longrightarrow> color (vs' ! i) = color (vs ! i)"
    proof (intro allI impI)
      fix i assume ci: "color (vs ! i) \<noteq> -1 \<or> i \<notin> {1..n}"
      then have "i \<noteq> j" using cj v(1) j by auto
      then have e: "color (?vs2 ! i) = color (vs ! i)"
        using nth_color_update_all[OF jl, of c i] v(1) by simp
      then have "color (?vs2 ! i) \<noteq> -1 \<or> i \<notin> {1..n}" using ci by simp
      then show "color (vs' ! i) = color (vs ! i)" using kp' e by simp
    qed
    have "rlf_inner_loop n c (vs, tot, f) = Some (vs', tot', f')"
      unfolding unf sc Some using r by simp
    moreover have "graph_of vs' = graph_of vs" using g' g1 by simp
    moreover have "tot \<le> tot'" using t' by simp
    ultimately show ?thesis using inv' ex' kp by blast
  qed
qed

lemma rlf_seed_inv:
  assumes inv: "rlf_outer_inv n s"
    and j: "j \<in> {1..n}" and cj: "color (r_vertices s ! j) = -1"
  shows "rlf_inner_inv n (current_color s)
           ((r_vertices s)[j := (r_vertices s ! j)\<lparr>color := current_color s\<rparr>])
           (total_colored_vertices s + 1)
           (mark_forbidden (replicate (n + 1) False) (neighbors (r_vertices s ! j)))"
proof -
  let ?vs = "r_vertices s"
  let ?c = "current_color s"
  let ?vs' = "?vs[j := (?vs ! j)\<lparr>color := ?c\<rparr>]"
  let ?f' = "mark_forbidden (replicate (n + 1) False) (neighbors (?vs ! j))"
  have wf: "well_formed n ?vs" and c0: "0 \<le> ?c"
    and tot: "total_colored_vertices s = int (card (colored_set n ?vs))"
    and pp: "proper_partial n ?vs" and gr: "graded n ?vs" and bl: "blocked n ?c ?vs"
    using inv unfolding rlf_outer_inv_def by blast+
  have rng: "color (?vs ! i) = -1 \<or> (0 \<le> color (?vs ! i) \<and> color (?vs ! i) < ?c)"
    if "i \<in> {1..n}" for i using inv that unfolding rlf_outer_inv_def by blast
  have used: "\<exists>i \<in> {1..n}. color (?vs ! i) = c'" if "0 \<le> c'" "c' < ?c" for c'
    using inv that unfolding rlf_outer_inv_def by blast
  have vi: "valid_indices n ?vs" using wf unfolding well_formed_def by blast
  have len: "length ?vs = Suc n" using vi by (rule valid_indices_length)
  have jl: "j < length ?vs" using j len by simp
  have cm1: "?c \<noteq> -1" using c0 by simp
  note col' = nth_color_update_all[OF jl, of ?c]
  note nb' = nth_neighbors_color_update[of ?vs j ?c]
  have notc: "color (?vs ! u) \<noteq> ?c" if "u \<in> {1..n}" for u using rng[OF that] c0 by auto
  have wf': "well_formed n ?vs'" by (rule well_formed_cong[OF _ wf]) simp
  have lf': "length ?f' = Suc n" by simp
  have tot': "total_colored_vertices s + 1 = int (card (colored_set n ?vs'))"
    unfolding card_colored_Suc[OF j jl cm1 cj] tot by simp
  have rng': "\<forall>i \<in> {1..n}. color (?vs' ! i) = -1 \<or> (0 \<le> color (?vs' ! i) \<and> color (?vs' ! i) \<le> ?c)"
  proof
    fix i assume i: "i \<in> {1..n}"
    show "color (?vs' ! i) = -1 \<or> (0 \<le> color (?vs' ! i) \<and> color (?vs' ! i) \<le> ?c)"
      unfolding col' using rng[OF i] c0 by auto
  qed
  have fb': "\<forall>k \<in> {1..n}. ?f' ! k \<longleftrightarrow>
       (\<exists>u \<in> {1..n}. color (?vs' ! u) = ?c \<and> k \<in> set (neighbors (?vs' ! u)))"
  proof
    fix k assume k: "k \<in> {1..n}"
    have kl: "k < length (replicate (n + 1) False)" using k by simp
    have "?f' ! k \<longleftrightarrow> replicate (n + 1) False ! k \<or> k \<in> set (neighbors (?vs ! j))"
      using mark_forbidden_nth[OF kl] .
    also have "\<dots> \<longleftrightarrow> k \<in> set (neighbors (?vs ! j))"
      using nth_replicate[OF kl[unfolded length_replicate], of False] by blast
    also have "\<dots> \<longleftrightarrow> (\<exists>u \<in> {1..n}. (if u = j then ?c else color (?vs ! u)) = ?c \<and>
                              k \<in> set (neighbors (?vs ! u)))"
    proof
      assume "k \<in> set (neighbors (?vs ! j))"
      then show "\<exists>u \<in> {1..n}. (if u = j then ?c else color (?vs ! u)) = ?c \<and>
                              k \<in> set (neighbors (?vs ! u))"
        using j by (intro bexI[of _ j]) simp_all
    next
      assume "\<exists>u \<in> {1..n}. (if u = j then ?c else color (?vs ! u)) = ?c \<and>
                              k \<in> set (neighbors (?vs ! u))"
      then obtain u where u: "u \<in> {1..n}" "(if u = j then ?c else color (?vs ! u)) = ?c"
        "k \<in> set (neighbors (?vs ! u))" by blast
      have "u = j" using u(2) notc[OF u(1)] by (cases "u = j") simp_all
      then show "k \<in> set (neighbors (?vs ! j))" using u(3) by simp
    qed
    finally show "?f' ! k \<longleftrightarrow>
       (\<exists>u \<in> {1..n}. color (?vs' ! u) = ?c \<and> k \<in> set (neighbors (?vs' ! u)))"
      unfolding col' nb' .
  qed
  have used': "\<forall>c'. 0 \<le> c' \<and> c' \<le> ?c \<longrightarrow> (\<exists>i \<in> {1..n}. color (?vs' ! i) = c')"
  proof (intro allI impI)
    fix c' assume h: "0 \<le> c' \<and> c' \<le> ?c"
    show "\<exists>i \<in> {1..n}. color (?vs' ! i) = c'"
    proof (cases "c' = ?c")
      case True
      then have "color (?vs' ! j) = c'" unfolding col' by simp
      then show ?thesis using j by blast
    next
      case False
      then have "c' < ?c" using h by simp
      then obtain i where i: "i \<in> {1..n}" and ci: "color (?vs ! i) = c'" using used h by blast
      have "i \<noteq> j" using ci cj h by auto
      then have "color (?vs' ! i) = c'" unfolding col' using ci by simp
      then show ?thesis using i by blast
    qed
  qed
  have free: "\<forall>v \<in> set (neighbors (?vs ! j)). v \<noteq> j \<longrightarrow> color (?vs ! v) \<noteq> ?c"
  proof (intro ballI impI)
    fix v assume v: "v \<in> set (neighbors (?vs ! j))"
    have vr: "v \<in> {1..n}" using valid_indices_range[OF vi j v] .
    show "color (?vs ! v) \<noteq> ?c" using notc[OF vr] .
  qed
  have pp': "proper_partial n ?vs'" using color_vertex_proper[OF wf j pp free] .
  have gr': "graded n ?vs'" using graded_color_vertex[OF gr bl j jl cj] .
  have bl': "blocked n ?c ?vs'" using blocked_color_vertex[OF bl jl cj cm1] .
  show ?thesis
    unfolding rlf_inner_inv_def
    using wf' lf' c0 tot' rng' fb' used' pp' gr' bl' by blast
qed

lemma rlf_class_close:
  assumes inv: "rlf_inner_inv n c vs tot f"
    and ex: "\<forall>k \<in> {1..n}. color (vs ! k) = -1 \<longrightarrow> f ! k"
  shows "rlf_outer_inv n \<lparr>r_vertices = vs, current_color = c + 1, total_colored_vertices = tot\<rparr>"
proof -
  have wf: "well_formed n vs" and c0: "0 \<le> c"
    and tot: "tot = int (card (colored_set n vs))"
    and pp: "proper_partial n vs" and gr: "graded n vs"
    using inv unfolding rlf_inner_inv_def by blast+
  have rng: "color (vs ! i) = -1 \<or> (0 \<le> color (vs ! i) \<and> color (vs ! i) \<le> c)"
    if "i \<in> {1..n}" for i using inv that unfolding rlf_inner_inv_def by blast
  have fb: "f ! k \<longleftrightarrow> (\<exists>u \<in> {1..n}. color (vs ! u) = c \<and> k \<in> set (neighbors (vs ! u)))"
    if "k \<in> {1..n}" for k using inv that unfolding rlf_inner_inv_def by blast
  have used: "\<exists>i \<in> {1..n}. color (vs ! i) = c'" if "0 \<le> c'" "c' \<le> c" for c'
    using inv that unfolding rlf_inner_inv_def by blast
  have sym: "symmetric_adjacency n vs" using wf unfolding well_formed_def by blast
  have rng': "\<forall>i \<in> {1..n}. color (vs ! i) = -1 \<or> (0 \<le> color (vs ! i) \<and> color (vs ! i) < c + 1)"
  proof
    fix i assume i: "i \<in> {1..n}"
    show "color (vs ! i) = -1 \<or> (0 \<le> color (vs ! i) \<and> color (vs ! i) < c + 1)"
      using rng[OF i] by auto
  qed
  have used': "\<forall>c'. 0 \<le> c' \<and> c' < c + 1 \<longrightarrow> (\<exists>i \<in> {1..n}. color (vs ! i) = c')"
    using used by simp
  have bl': "blocked n (c + 1) vs"
    unfolding blocked_def
  proof (intro ballI impI)
    fix k assume k: "k \<in> {1..n}" and ck: "color (vs ! k) = -1"
    have "f ! k" using ex k ck by blast
    then obtain u where u: "u \<in> {1..n}" and cu: "color (vs ! u) = c"
      and ku: "k \<in> set (neighbors (vs ! u))" using fb[OF k] by blast
    have "u \<in> set (neighbors (vs ! k))" using symmetric_adjacencyD[OF sym u ku] .
    then show "\<exists>u \<in> set (neighbors (vs ! k)). color (vs ! u) = c + 1 - 1" using cu by auto
  qed
  have c1: "0 \<le> c + 1" using c0 by simp
  show ?thesis
    unfolding rlf_outer_inv_def
    using wf c1 tot rng' used' pp gr bl' by simp
qed

lemma rlf_class_correct:
  assumes inv: "rlf_outer_inv n s" and lt: "total_colored_vertices s < int n"
  shows "\<exists>s'. rlf_class n s = Some (Continue s') \<and> rlf_outer_inv n s' \<and>
           total_colored_vertices s < total_colored_vertices s' \<and>
           graph_of (r_vertices s') = graph_of (r_vertices s) \<and>
           current_color s' = current_color s + 1 \<and>
           (\<exists>v. find_max_degree_uncolored_vertex (r_vertices s) n = Some v \<and>
                color (r_vertices s' ! v) = current_color s) \<and>
           (\<forall>i. color (r_vertices s ! i) \<noteq> -1 \<or> i \<notin> {1..n} \<longrightarrow>
                color (r_vertices s' ! i) = color (r_vertices s ! i))"
proof -
  let ?vs = "r_vertices s"
  let ?c = "current_color s"
  have tot: "total_colored_vertices s = int (card (colored_set n ?vs))"
    using inv unfolding rlf_outer_inv_def by blast
  then have "card (colored_set n ?vs) < n" using lt by simp
  then have "\<exists>i \<in> {1..n}. color (?vs ! i) = -1" by (rule card_colored_less)
  then have "find_max_degree_uncolored_vertex ?vs n \<noteq> None"
    unfolding find_max_None_iff by blast
  then obtain v where fm: "find_max_degree_uncolored_vertex ?vs n = Some v" by blast
  note fs = find_max_Some[OF fm]
  let ?vs1 = "?vs[v := (?vs ! v)\<lparr>color := ?c\<rparr>]"
  let ?f1 = "mark_forbidden (replicate (n + 1) False) (neighbors (?vs1 ! v))"
  have nb: "neighbors (?vs1 ! v) = neighbors (?vs ! v)" by (rule nth_neighbors_color_update)
  have inv1: "rlf_inner_inv n ?c ?vs1 (total_colored_vertices s + 1) ?f1"
    unfolding nb using rlf_seed_inv[OF inv fs(1,2)] .
  from rlf_inner_loop_correct[OF inv1] obtain vs' tot' f' where
    r: "rlf_inner_loop n ?c (?vs1, total_colored_vertices s + 1, ?f1) = Some (vs', tot', f')"
    and inv': "rlf_inner_inv n ?c vs' tot' f'" and g': "graph_of vs' = graph_of ?vs1"
    and t': "total_colored_vertices s + 1 \<le> tot'"
    and ex': "\<forall>k \<in> {1..n}. color (vs' ! k) = -1 \<longrightarrow> f' ! k"
    and kp': "\<forall>i. color (?vs1 ! i) \<noteq> -1 \<or> i \<notin> {1..n} \<longrightarrow> color (vs' ! i) = color (?vs1 ! i)"
    by blast
  have c0: "0 \<le> ?c" using inv unfolding rlf_outer_inv_def by blast
  have len: "length ?vs = Suc n"
    using inv unfolding rlf_outer_inv_def well_formed_def valid_indices_def by blast
  have vl: "v < length ?vs" using fs(1) len by simp
  have seed: "color (vs' ! v) = ?c"
    using kp' nth_color_update_all[OF vl, of ?c v] c0 by simp
  have kp: "\<forall>i. color (?vs ! i) \<noteq> -1 \<or> i \<notin> {1..n} \<longrightarrow> color (vs' ! i) = color (?vs ! i)"
  proof (intro allI impI)
    fix i assume ci: "color (?vs ! i) \<noteq> -1 \<or> i \<notin> {1..n}"
    then have "i \<noteq> v" using fs(1,2) by auto
    then have e: "color (?vs1 ! i) = color (?vs ! i)"
      using nth_color_update_all[OF vl, of ?c i] by simp
    then have "color (?vs1 ! i) \<noteq> -1 \<or> i \<notin> {1..n}" using ci by simp
    then show "color (vs' ! i) = color (?vs ! i)" using kp' e by simp
  qed
  let ?s' = "\<lparr>r_vertices = vs', current_color = ?c + 1, total_colored_vertices = tot'\<rparr>"
  have cl: "rlf_class n s = Some (Continue ?s')"
    unfolding rlf_class_def fm using r by (simp add: Let_def)
  have "rlf_outer_inv n ?s'" using rlf_class_close[OF inv' ex'] .
  moreover have "total_colored_vertices s < total_colored_vertices ?s'" using t' by simp
  moreover have "graph_of (r_vertices ?s') = graph_of ?vs" using g' by simp
  moreover have "current_color ?s' = ?c + 1" by simp
  moreover have "\<exists>v. find_max_degree_uncolored_vertex ?vs n = Some v \<and>
                color (r_vertices ?s' ! v) = ?c" using fm seed by simp
  moreover have "\<forall>i. color (?vs ! i) \<noteq> -1 \<or> i \<notin> {1..n} \<longrightarrow>
      color (r_vertices ?s' ! i) = color (?vs ! i)"
    using kp by simp
  ultimately show ?thesis using cl by blast
qed

lemma rlf_outer_loop_correct:
  assumes "rlf_outer_inv n s"
  shows "\<exists>s'. rlf_outer_loop n s = Some (s', False) \<and> rlf_outer_inv n s' \<and>
           int n \<le> total_colored_vertices s' \<and>
           graph_of (r_vertices s') = graph_of (r_vertices s) \<and>
           current_color s \<le> current_color s' \<and>
           (\<forall>i. i \<notin> {1..n} \<longrightarrow> color (r_vertices s' ! i) = color (r_vertices s ! i))"
  using assms
proof (induction "nat (int n - total_colored_vertices s)" arbitrary: s rule: less_induct)
  case less
  show ?case
  proof (cases "total_colored_vertices s < int n")
    case False
    then have "rlf_outer_loop n s = Some (s, False)"
      by (subst rlf_outer_loop.simps) simp
    then show ?thesis using less.prems False by auto
  next
    case True
    from rlf_class_correct[OF less.prems True] obtain s1 where
      cl: "rlf_class n s = Some (Continue s1)" and inv1: "rlf_outer_inv n s1"
      and t1: "total_colored_vertices s < total_colored_vertices s1"
      and g1: "graph_of (r_vertices s1) = graph_of (r_vertices s)"
      and c1: "current_color s1 = current_color s + 1"
      and k1: "\<forall>i. color (r_vertices s ! i) \<noteq> -1 \<or> i \<notin> {1..n} \<longrightarrow>
                color (r_vertices s1 ! i) = color (r_vertices s ! i)" by blast
    have dec: "nat (int n - total_colored_vertices s1) < nat (int n - total_colored_vertices s)"
      using t1 True by simp
    from less.hyps[OF dec inv1] obtain s' where
      r: "rlf_outer_loop n s1 = Some (s', False)" and inv': "rlf_outer_inv n s'"
      and t': "int n \<le> total_colored_vertices s'"
      and g': "graph_of (r_vertices s') = graph_of (r_vertices s1)"
      and c': "current_color s1 \<le> current_color s'"
      and k': "\<forall>i. i \<notin> {1..n} \<longrightarrow> color (r_vertices s' ! i) = color (r_vertices s1 ! i)"
      by blast
    have "rlf_outer_loop n s = Some (s', False)"
      by (subst rlf_outer_loop.simps) (simp add: True cl r)
    moreover have "graph_of (r_vertices s') = graph_of (r_vertices s)" using g' g1 by simp
    moreover have "current_color s \<le> current_color s'" using c' c1 by simp
    moreover have "\<forall>i. i \<notin> {1..n} \<longrightarrow> color (r_vertices s' ! i) = color (r_vertices s ! i)"
      using k' k1 by simp
    ultimately show ?thesis using inv' t' by blast
  qed
qed

lemma rlf_outer_final:
  assumes inv: "rlf_outer_inv n s" and t: "int n \<le> total_colored_vertices s"
    and g: "graph_of (r_vertices s) = graph_of vs0"
  shows "complete_coloring n vs0 (r_vertices s) (current_color s)"
proof -
  have "total_colored_vertices s = int (card (colored_set n (r_vertices s)))"
    using inv unfolding rlf_outer_inv_def by blast
  then have "card (colored_set n (r_vertices s)) = n"
    using t card_colored_le[of n "r_vertices s"] by simp
  then have nun: "color (r_vertices s ! i) \<noteq> -1" if "i \<in> {1..n}" for i
    using card_colored_full that by blast
  have rng: "color (r_vertices s ! i) = -1 \<or>
         (0 \<le> color (r_vertices s ! i) \<and> color (r_vertices s ! i) < current_color s)"
    if "i \<in> {1..n}" for i using inv that unfolding rlf_outer_inv_def by blast
  have r: "\<forall>i \<in> {1..n}. 0 \<le> color (r_vertices s ! i) \<and> color (r_vertices s ! i) < current_color s"
    using nun rng by blast
  have k: "0 \<le> current_color s" using inv unfolding rlf_outer_inv_def by blast
  have u: "\<forall>c'. 0 \<le> c' \<and> c' < current_color s \<longrightarrow> (\<exists>i \<in> {1..n}. color (r_vertices s ! i) = c')"
    using inv unfolding rlf_outer_inv_def by blast
  have pp: "proper_partial n (r_vertices s)" using inv unfolding rlf_outer_inv_def by blast
  show ?thesis unfolding complete_coloring_def using g k r u pp by blast
qed

lemma rlf_start_inv:
  assumes wf: "well_formed n vs0"
  shows "rlf_outer_inv n \<lparr>r_vertices = reset_colors vs0 n, current_color = 0,
           total_colored_vertices = 0\<rparr>"
proof -
  let ?vs = "reset_colors vs0 n"
  have wf': "well_formed n ?vs" by (rule well_formed_cong[OF _ wf]) simp
  have len: "length vs0 = Suc n" using wf unfolding well_formed_def valid_indices_def by blast
  have col: "color (?vs ! i) = -1" if "i \<in> {1..n}" for i
    using reset_colors_color[OF that, of vs0] that len by simp
  have "colored_set n ?vs = {}" unfolding colored_set_def using col by blast
  then have tot: "(0::int) = int (card (colored_set n ?vs))" by simp
  have pp: "proper_partial n ?vs" unfolding proper_partial_def using col by blast
  have gr: "graded n ?vs" unfolding graded_def using col by simp
  have bl: "blocked n 0 ?vs" unfolding blocked_def by simp
  have rng: "\<forall>i \<in> {1..n}. color (?vs ! i) = -1 \<or> (0 \<le> color (?vs ! i) \<and> color (?vs ! i) < 0)"
    using col by blast
  show ?thesis
    unfolding rlf_outer_inv_def using wf' tot pp gr bl rng by simp
qed

lemma RLF_complete:
  assumes wf: "well_formed n vs0"
  shows "\<exists>r. RLF_coloring vs0 n = Some r \<and>
           complete_coloring n vs0 (res_vertices r) (res_colors r) \<and> \<not> res_warned r \<and>
           graded n (res_vertices r)"
proof -
  let ?s0 = "\<lparr>r_vertices = reset_colors vs0 n, current_color = 0, total_colored_vertices = 0\<rparr>"
  from rlf_outer_loop_correct[OF rlf_start_inv[OF wf]] obtain s' where
    r: "rlf_outer_loop n ?s0 = Some (s', False)" and inv': "rlf_outer_inv n s'"
    and t': "int n \<le> total_colored_vertices s'"
    and g': "graph_of (r_vertices s') = graph_of (r_vertices ?s0)" by blast
  have g: "graph_of (r_vertices s') = graph_of vs0" using g' by simp
  let ?r = "\<lparr>res_vertices = r_vertices s', res_colors = current_color s', res_warned = False\<rparr>"
  have "RLF_coloring vs0 n = Some ?r" unfolding RLF_coloring_def r by simp
  moreover have "complete_coloring n vs0 (res_vertices ?r) (res_colors ?r)"
    using rlf_outer_final[OF inv' t' g] by simp
  moreover have "graded n (res_vertices ?r)" using inv' unfolding rlf_outer_inv_def by simp
  ultimately show ?thesis by (intro exI[of _ ?r]) simp
qed

section \<open>Validity of the colorings (claim C1)\<close>

lemma complete_coloring_valid:
  assumes wf: "well_formed n g" and cc: "complete_coloring n g vs k"
  shows "valid_coloring n g vs"
  unfolding valid_coloring_def
proof (intro ballI conjI impI)
  fix u assume u: "u \<in> {1..n}"
  have gr: "graph_of vs = graph_of g" and pp: "proper_partial n vs"
    and rng: "\<forall>i \<in> {1..n}. 0 \<le> color (vs ! i) \<and> color (vs ! i) < k"
    using cc unfolding complete_coloring_def by blast+
  have len: "length g = Suc n" using wf unfolding well_formed_def valid_indices_def by blast
  have ul: "u < length vs" using u len graph_of_length[OF gr] by simp
  have "0 \<le> color (vs ! u)" using rng u by blast
  then show c: "color (vs ! u) \<noteq> -1" by simp
  fix v assume v: "v \<in> set (neighbors (g ! u))" and vu: "v \<noteq> u"
  have "v \<in> set (neighbors (vs ! u))" using v graph_of_nth(1)[OF gr ul] by simp
  from proper_partialD[OF pp u this vu c] show "color (vs ! u) \<noteq> color (vs ! v)" by simp
qed

lemma well_formed_triangle: "well_formed 3 triangle"
  by code_simp

lemma generic_greedy_valid:
  assumes wf: "well_formed n vs" and srt: "std_sort_contract srt"
  shows "valid_coloring n vs (res_vertices (generic_greedy_coloring srt vs n alg))"
  using complete_coloring_valid[OF wf] generic_greedy_complete[OF wf srt] by blast

lemma RLF_valid:
  assumes wf: "well_formed n vs"
  shows "\<exists>r. RLF_coloring vs n = Some r \<and> valid_coloring n vs (res_vertices r)"
  using complete_coloring_valid[OF wf] RLF_complete[OF wf] by blast

text \<open>
  Claim C1, as amended. For every well-formed graph (valid indices \<open>1..N\<close>, symmetric
  adjacency) and each of the three drivers: after the driver has run, every vertex is
  colored and the two ends of every edge between two distinct vertices have different
  colors. RLF returns. The graph with no vertices is included.
\<close>

theorem C1_valid_coloring:
  assumes "well_formed n vs" and "std_sort_contract srt"
  shows "valid_coloring n vs (res_vertices (IDO_coloring srt vs n)) \<and>
         valid_coloring n vs (res_vertices (DSATUR_coloring srt vs n)) \<and>
         (\<exists>r. RLF_coloring vs n = Some r \<and> valid_coloring n vs (res_vertices r))"
  unfolding IDO_coloring_def DSATUR_coloring_def
  using generic_greedy_valid[OF assms] RLF_valid[OF assms(1)] by blast

theorem C1_valid_coloring_witness:
  "well_formed 3 triangle \<and> std_sort_contract stable_sort \<and>
   valid_coloring 3 triangle (res_vertices (IDO_coloring stable_sort triangle 3)) \<and>
   valid_coloring 3 triangle (res_vertices (DSATUR_coloring stable_sort triangle 3)) \<and>
   (\<exists>r. RLF_coloring triangle 3 = Some r \<and> valid_coloring 3 triangle (res_vertices r)) \<and>
   map color (res_vertices (IDO_coloring stable_sort triangle 3)) = [-1, 0, 1, 2] \<and>
   well_formed 0 (mk_graph []) \<and>
   valid_coloring 0 (mk_graph []) (res_vertices (IDO_coloring stable_sort (mk_graph []) 0))"
proof -
  have e: "well_formed 0 (mk_graph [])" by code_simp
  have c: "map color (res_vertices (IDO_coloring stable_sort triangle 3)) = [-1, 0, 1, 2]"
    by code_simp
  show ?thesis
    using C1_valid_coloring[OF well_formed_triangle stable_sort_contract]
      C1_valid_coloring[OF e stable_sort_contract]
      well_formed_triangle stable_sort_contract e c by blast
qed

text \<open>
  The claim as it is written fails on a graph with an edge from a vertex to itself, which
  the loader accepts (it checks only that both ends are in \<open>1..N\<close>): the line \<^verbatim>\<open>e 1 1\<close>
  gives vertex 1 the neighbors \<open>[1, 1]\<close>.
\<close>

theorem C1_self_loop_counterexample:
  "well_formed 1 loop_graph \<and>
   \<not> valid_coloring_all_edges 1 loop_graph (res_vertices (IDO_coloring stable_sort loop_graph 1)) \<and>
   \<not> valid_coloring_all_edges 1 loop_graph (res_vertices (DSATUR_coloring stable_sort loop_graph 1)) \<and>
   map_option (\<lambda>r. valid_coloring_all_edges 1 loop_graph (res_vertices r))
     (RLF_coloring loop_graph 1) = Some False"
  by code_simp

section \<open>The internal-consistency fault (claim C9)\<close>

text \<open>
  Claim C9. On a well-formed graph no driver takes its warning branch: the flag of the
  result is unset for IDO, DSATUR and RLF, and RLF returns. The two facts behind it: the
  selection scan of the generic driver returns a vertex whenever the pointer list is not
  empty, and \<open>find_max_degree_uncolored_vertex\<close> returns a vertex whenever one of the
  vertices \<open>1..N\<close> is uncolored.
\<close>

theorem C9_no_internal_fault:
  assumes "well_formed n vs" and "std_sort_contract srt"
  shows "\<not> res_warned (IDO_coloring srt vs n) \<and>
         \<not> res_warned (DSATUR_coloring srt vs n) \<and>
         (\<exists>r. RLF_coloring vs n = Some r \<and> \<not> res_warned r) \<and>
         (\<forall>alg ptrs vs'. ptrs \<noteq> [] \<longrightarrow> snd (select_best alg ptrs (vs', None)) \<noteq> None) \<and>
         (\<forall>vs'. (\<exists>i \<in> {1..n}. color (vs' ! i) = -1) \<longrightarrow>
                 find_max_degree_uncolored_vertex vs' n \<noteq> None)"
proof -
  have a: "\<not> res_warned (generic_greedy_coloring srt vs n alg)" for alg
    using generic_greedy_complete[OF assms] by blast
  have b: "\<exists>r. RLF_coloring vs n = Some r \<and> \<not> res_warned r"
    using RLF_complete[OF assms(1)] by blast
  have c: "snd (select_best alg ptrs (vs', None)) \<noteq> None" if "ptrs \<noteq> []" for alg ptrs vs'
    using select_best_nonempty[OF that, of alg vs'] by (cases "select_best alg ptrs (vs', None)") auto
  have d: "find_max_degree_uncolored_vertex vs' n \<noteq> None"
    if "\<exists>i \<in> {1..n}. color (vs' ! i) = -1" for vs'
    using that unfolding find_max_None_iff by blast
  show ?thesis unfolding IDO_coloring_def DSATUR_coloring_def using a b c d by blast
qed

theorem C9_no_internal_fault_witness:
  "well_formed 3 triangle \<and> std_sort_contract stable_sort \<and>
   \<not> res_warned (IDO_coloring stable_sort triangle 3) \<and>
   \<not> res_warned (DSATUR_coloring stable_sort triangle 3) \<and>
   (\<exists>r. RLF_coloring triangle 3 = Some r \<and> \<not> res_warned r) \<and>
   snd (select_best ''IDO'' [2, 3] (triangle, None)) \<noteq> None \<and>
   find_max_degree_uncolored_vertex triangle 3 \<noteq> None"
proof -
  have u: "\<exists>i \<in> {1..3}. color (triangle ! i) = -1" by code_simp
  have p: "[2, 3] \<noteq> ([] :: nat list)" by simp
  note t = C9_no_internal_fault[OF well_formed_triangle stable_sort_contract]
  have "snd (select_best ''IDO'' [2, 3] (triangle, None)) \<noteq> None" using t p by blast
  moreover have "find_max_degree_uncolored_vertex triangle 3 \<noteq> None" using t u by blast
  ultimately show ?thesis using t well_formed_triangle stable_sort_contract by blast
qed

section \<open>The number of colors (claims C5 and C6)\<close>

lemma complete_coloring_count:
  assumes wf: "well_formed n g" and cc: "complete_coloring n g vs k" and gd: "graded n vs"
  shows "color_count_ok n g k"
proof -
  have gr: "graph_of vs = graph_of g" and pp: "proper_partial n vs" and k0: "0 \<le> k"
    using cc unfolding complete_coloring_def by blast+
  have rng: "0 \<le> color (vs ! i) \<and> color (vs ! i) < k" if "i \<in> {1..n}" for i
    using cc that unfolding complete_coloring_def by blast
  have used: "\<exists>i \<in> {1..n}. color (vs ! i) = c" if "0 \<le> c" "c < k" for c
    using cc that unfolding complete_coloring_def by blast
  have vi: "valid_indices n g" using wf unfolding well_formed_def by blast
  have len: "length g = Suc n" using vi by (rule valid_indices_length)
  have nb: "neighbors (vs ! u) = neighbors (g ! u)" if "u \<in> {1..n}" for u
  proof -
    have "u < length vs" using that len graph_of_length[OF gr] by simp
    from graph_of_nth(1)[OF gr this] show ?thesis .
  qed
  have z: "k = 0" if "n = 0"
  proof (rule ccontr)
    assume "k \<noteq> 0"
    then have "0 < k" using k0 by simp
    then obtain i where "i \<in> {1..n}" using used[of 0] by blast
    then show False using that by simp
  qed
  have one: "1 \<le> k" if "1 \<le> n"
  proof -
    have "1 \<in> {1..n}" using that by simp
    from rng[OF this] show ?thesis by simp
  qed
  have dir1: "no_proper_edges n g" if "k = 1"
    unfolding no_proper_edges_def
  proof (intro ballI, rule ccontr)
    fix u v assume u: "u \<in> {1..n}" and v: "v \<in> set (neighbors (g ! u))" and vu: "v \<noteq> u"
    have vr: "v \<in> {1..n}" using valid_indices_range[OF vi u v] .
    have cu: "color (vs ! u) = 0" using rng[OF u] that by simp
    have cv: "color (vs ! v) = 0" using rng[OF vr] that by simp
    have "v \<in> set (neighbors (vs ! u))" using v nb[OF u] by simp
    from proper_partialD[OF pp u this vu] cu cv show False by simp
  qed
  have dir2: "k = 1" if n: "1 \<le> n" and e: "no_proper_edges n g"
  proof (rule ccontr)
    assume "k \<noteq> 1"
    then have "1 < k" using one[OF n] by simp
    then obtain i where i: "i \<in> {1..n}" and ci: "color (vs ! i) = 1" using used[of 1] by auto
    from gradedD[OF gd i] ci obtain u where "u \<in> set (neighbors (vs ! i))" "u \<noteq> i" by auto
    then have "u \<in> set (neighbors (g ! i))" "u \<noteq> i" using nb[OF i] by simp_all
    then show False using e i unfolding no_proper_edges_def by blast
  qed
  show ?thesis unfolding color_count_ok_def using z one dir1 dir2 by blast
qed

text \<open>
  Claim C5, as amended. For every well-formed graph each driver returns 0 colors when the
  graph has no vertices, at least 1 color when it has one, and then exactly 1 color if and
  only if no edge joins two distinct vertices.
\<close>

theorem C5_color_count:
  assumes "well_formed n vs" and "std_sort_contract srt"
  shows "color_count_ok n vs (res_colors (IDO_coloring srt vs n)) \<and>
         color_count_ok n vs (res_colors (DSATUR_coloring srt vs n)) \<and>
         (\<exists>r. RLF_coloring vs n = Some r \<and> color_count_ok n vs (res_colors r))"
proof -
  have a: "color_count_ok n vs (res_colors (generic_greedy_coloring srt vs n alg))" for alg
    using complete_coloring_count[OF assms(1)] generic_greedy_complete[OF assms]
      generic_greedy_graded[OF assms] by blast
  have b: "\<exists>r. RLF_coloring vs n = Some r \<and> color_count_ok n vs (res_colors r)"
    using complete_coloring_count[OF assms(1)] RLF_complete[OF assms(1)] by blast
  show ?thesis unfolding IDO_coloring_def DSATUR_coloring_def using a b by blast
qed

theorem C5_color_count_witness:
  "well_formed 4 four_cycle \<and> std_sort_contract stable_sort \<and>
   color_count_ok 4 four_cycle (res_colors (IDO_coloring stable_sort four_cycle 4)) \<and>
   res_colors (IDO_coloring stable_sort four_cycle 4) = 2 \<and>
   well_formed 5 five_isolated \<and> no_proper_edges 5 five_isolated \<and>
   color_count_ok 5 five_isolated (res_colors (DSATUR_coloring stable_sort five_isolated 5)) \<and>
   res_colors (DSATUR_coloring stable_sort five_isolated 5) = 1 \<and>
   (\<exists>r. RLF_coloring five_isolated 5 = Some r \<and> color_count_ok 5 five_isolated (res_colors r)) \<and>
   well_formed 0 (mk_graph []) \<and>
   color_count_ok 0 (mk_graph []) (res_colors (IDO_coloring stable_sort (mk_graph []) 0))"
proof -
  have w4: "well_formed 4 four_cycle" by code_simp
  have w5: "well_formed 5 five_isolated" by code_simp
  have w0: "well_formed 0 (mk_graph [])" by code_simp
  have e5: "no_proper_edges 5 five_isolated" by code_simp
  have r4: "res_colors (IDO_coloring stable_sort four_cycle 4) = 2" by code_simp
  have r5: "res_colors (DSATUR_coloring stable_sort five_isolated 5) = 1" by code_simp
  show ?thesis
    using C5_color_count[OF w4 stable_sort_contract] C5_color_count[OF w5 stable_sort_contract]
      C5_color_count[OF w0 stable_sort_contract] w4 w5 w0 e5 r4 r5 stable_sort_contract
    by blast
qed

text \<open>The claim as it is written fails on the graph with one vertex and an edge from it
  to itself: the graph has an edge, and every driver returns 1 color.\<close>

theorem C5_self_loop_counterexample:
  "well_formed 1 loop_graph \<and> \<not> edgeless 1 loop_graph \<and>
   res_colors (IDO_coloring stable_sort loop_graph 1) = 1 \<and>
   res_colors (DSATUR_coloring stable_sort loop_graph 1) = 1 \<and>
   map_option res_colors (RLF_coloring loop_graph 1) = Some 1"
  by code_simp

lemma complete_coloring_exact:
  assumes cc: "complete_coloring n g vs k"
  shows "colors_exact n vs k"
proof -
  have k0: "0 \<le> k" using cc unfolding complete_coloring_def by blast
  have rng: "0 \<le> color (vs ! i) \<and> color (vs ! i) < k" if "i \<in> {1..n}" for i
    using cc that unfolding complete_coloring_def by blast
  have used: "\<exists>i \<in> {1..n}. color (vs ! i) = c" if "0 \<le> c" "c < k" for c
    using cc that unfolding complete_coloring_def by blast
  have img: "(\<lambda>i. color (vs ! i)) ` {1..n} = {0..<k}"
  proof (intro set_eqI iffI)
    fix c assume "c \<in> (\<lambda>i. color (vs ! i)) ` {1..n}"
    then obtain i where "i \<in> {1..n}" "c = color (vs ! i)" by blast
    then show "c \<in> {0..<k}" using rng by simp
  next
    fix c assume "c \<in> {0..<k}"
    then obtain i where "i \<in> {1..n}" "color (vs ! i) = c" using used[of c] by auto
    then show "c \<in> (\<lambda>i. color (vs ! i)) ` {1..n}" by blast
  qed
  have card: "int (card ((\<lambda>i. color (vs ! i)) ` {1..n})) = k"
    unfolding img using k0 by simp
  have mx: "Max {0..<k} + 1 = k" if "n \<noteq> 0"
  proof -
    have "1 \<in> {1..n}" using that by simp
    from rng[OF this] have k1: "1 \<le> k" by simp
    have "Max {0..<k} = k - 1"
      by (rule Max_eqI) (use k1 in auto)
    then show ?thesis by simp
  qed
  have z: "k = 0" if "n = 0"
  proof (rule ccontr)
    assume "k \<noteq> 0"
    then have "0 < k" using k0 by simp
    then obtain i where "i \<in> {1..n}" using used[of 0] by blast
    then show False using that by simp
  qed
  show ?thesis unfolding colors_exact_def using img card mx z unfolding img by simp
qed

lemma greedy_loop_palette:
  assumes wf: "well_formed n vs" and srt: "std_sort_contract srt" and n: "1 \<le> n"
  shows "\<exists>s. greedy_loop alg (snd (greedy_init srt vs n)) = (s, False) \<and>
           color_palette s = map int [0..<length (color_palette s)] \<and>
           next_available_color_idx s = int (length (color_palette s)) \<and>
           res_colors (generic_greedy_coloring srt vs n alg) = int (length (color_palette s))"
proof -
  obtain s w where l: "greedy_loop alg (snd (greedy_init srt vs n)) = (s, w)"
    by (cases "greedy_loop alg (snd (greedy_init srt vs n))")
  from greedy_loop_inv[OF greedy_init_inv(1)[OF wf srt n] l]
  have inv: "greedy_inv n s" and w: "\<not> w" by simp_all
  obtain k where nx: "next_available_color_idx s = int k" and pal: "color_palette s = map int [0..<k]"
    using inv unfolding greedy_inv_def by blast
  have len: "length (color_palette s) = k" using pal by simp
  have "res_colors (generic_greedy_coloring srt vs n alg) = int k"
    by (simp add: generic_greedy_pos[OF n] l nx)
  then show ?thesis using l w nx pal len by simp
qed

text \<open>
  Claim C6. For every driver run on a well-formed graph the colors assigned are exactly
  \<open>0, 1, ..., k-1\<close>, where \<open>k\<close> is the returned number of colors: \<open>k\<close> is the number of
  distinct colors (for RLF, of color classes), and on a graph with a vertex the largest
  color plus 1. In the generic driver the palette at the end of the run is \<open>[0, ..., k-1]\<close>
  and the returned number is its size.
\<close>

theorem C6_colors_exact:
  assumes "well_formed n vs" and "std_sort_contract srt"
  shows "colors_exact n (res_vertices (IDO_coloring srt vs n)) (res_colors (IDO_coloring srt vs n)) \<and>
         colors_exact n (res_vertices (DSATUR_coloring srt vs n))
           (res_colors (DSATUR_coloring srt vs n)) \<and>
         (\<exists>r. RLF_coloring vs n = Some r \<and> colors_exact n (res_vertices r) (res_colors r)) \<and>
         (1 \<le> n \<longrightarrow>
            (\<forall>alg. \<exists>s. greedy_loop alg (snd (greedy_init srt vs n)) = (s, False) \<and>
               color_palette s = map int [0..<length (color_palette s)] \<and>
               next_available_color_idx s = int (length (color_palette s)) \<and>
               res_colors (generic_greedy_coloring srt vs n alg) = int (length (color_palette s))))"
proof -
  have a: "colors_exact n (res_vertices (generic_greedy_coloring srt vs n alg))
             (res_colors (generic_greedy_coloring srt vs n alg))" for alg
    using complete_coloring_exact generic_greedy_complete[OF assms] by blast
  have b: "\<exists>r. RLF_coloring vs n = Some r \<and> colors_exact n (res_vertices r) (res_colors r)"
    using complete_coloring_exact RLF_complete[OF assms(1)] by blast
  show ?thesis
    unfolding IDO_coloring_def DSATUR_coloring_def
    using a b greedy_loop_palette[OF assms] by blast
qed

theorem C6_colors_exact_witness:
  "well_formed 3 triangle \<and> std_sort_contract stable_sort \<and>
   colors_exact 3 (res_vertices (IDO_coloring stable_sort triangle 3))
     (res_colors (IDO_coloring stable_sort triangle 3)) \<and>
   colors_exact 3 (res_vertices (DSATUR_coloring stable_sort triangle 3))
     (res_colors (DSATUR_coloring stable_sort triangle 3)) \<and>
   (\<exists>r. RLF_coloring triangle 3 = Some r \<and> colors_exact 3 (res_vertices r) (res_colors r)) \<and>
   (\<exists>s. greedy_loop ''DSATUR'' (snd (greedy_init stable_sort triangle 3)) = (s, False) \<and>
        color_palette s = map int [0..<length (color_palette s)] \<and>
        next_available_color_idx s = int (length (color_palette s)) \<and>
        res_colors (generic_greedy_coloring stable_sort triangle 3 ''DSATUR'') =
          int (length (color_palette s))) \<and>
   res_colors (IDO_coloring stable_sort triangle 3) = 3 \<and>
   map_option res_colors (RLF_coloring triangle 3) = Some 3"
proof -
  have n: "(1::nat) \<le> 3" by simp
  have r: "res_colors (IDO_coloring stable_sort triangle 3) = 3" by code_simp
  have q: "map_option res_colors (RLF_coloring triangle 3) = Some 3" by code_simp
  show ?thesis
    using C6_colors_exact[OF well_formed_triangle stable_sort_contract] n r q
      well_formed_triangle stable_sort_contract by blast
qed

section \<open>The states of a run of the generic driver\<close>

lemma greedy_reachable_inv:
  assumes wf: "well_formed n vs0" and srt: "std_sort_contract srt" and n: "1 \<le> n"
    and r: "greedy_reachable srt vs0 n alg s"
  shows "greedy_inv n s \<and> graph_of (g_vertices s) = graph_of vs0"
  using r
proof (induction rule: greedy_reachable.induct)
  case start
  then show ?case using greedy_init_inv[OF wf srt n] by simp
next
  case (step s s')
  from greedy_iteration_inv[OF conjunct1[OF step.IH] step.hyps(2), of alg] step.hyps(3) step.IH
  show ?case by auto
qed

lemma greedy_steps_reachable:
  assumes wf: "well_formed n vs0" and srt: "std_sort_contract srt" and n: "1 \<le> n"
  shows "greedy_reachable srt vs0 n alg s \<Longrightarrow> greedy_reachable srt vs0 n alg (greedy_steps k alg s)"
proof (induction k arbitrary: s)
  case 0
  then show ?case by simp
next
  case (Suc k)
  show ?case
  proof (cases "uncolored_vertices_ptrs s = []")
    case True
    then show ?thesis using Suc.prems by simp
  next
    case False
    have inv: "greedy_inv n s" using greedy_reachable_inv[OF wf srt n Suc.prems] by blast
    from greedy_iteration_inv[OF inv False, of alg] obtain s' where
      it: "greedy_iteration alg s = Continue s'" by blast
    have "greedy_reachable srt vs0 n alg s'"
      using greedy_reachable.step[OF Suc.prems False it] .
    from Suc.IH[OF this] show ?thesis using False it by simp
  qed
qed

section \<open>The saturation degree (claim C4)\<close>

lemma fold_insert_if:
  "fold (\<lambda>x S. if P x then insert (f x) S else S) xs S0 = S0 \<union> f ` {x \<in> set xs. P x}"
  by (induction xs arbitrary: S0) auto

lemma dsatur_heuristic_card:
  "dsatur_heuristic vs nbs =
     int (card ((\<lambda>u. color (vs ! u)) ` {u \<in> set nbs. color (vs ! u) \<noteq> -1}))"
  unfolding dsatur_heuristic_def fold_insert_if by simp

lemma compute_heuristic_cong:
  assumes g: "graph_of vs' = graph_of vs" and c: "map color vs' = map color vs"
  shows "compute_heuristic alg vs' v = compute_heuristic alg vs v"
  unfolding compute_heuristic_def dsatur_heuristic_def ido_heuristic_def same_view[OF g c] ..

lemma nth_heuristic_update:
  "heuristic_value (vs[p := (vs ! p)\<lparr>heuristic_value := h\<rparr>] ! v) =
     (if v = p \<and> p < length vs then h else heuristic_value (vs ! v))"
  by (cases "p < length vs") (auto simp: nth_list_update list_update_beyond)

lemma select_best_heuristic:
  "select_best alg ptrs (vs, best) = (vs', r) \<Longrightarrow> v < length vs \<Longrightarrow>
   heuristic_value (vs' ! v) =
     (if v \<in> set ptrs then compute_heuristic alg vs v else heuristic_value (vs ! v))"
proof (induction ptrs arbitrary: vs best)
  case Nil
  then show ?case by simp
next
  case (Cons p ptrs)
  let ?vs1 = "vs[p := (vs ! p)\<lparr>heuristic_value := compute_heuristic alg vs p\<rparr>]"
  from Cons.prems(1) obtain best' where sb: "select_best alg ptrs (?vs1, best') = (vs', r)"
    by (simp add: Let_def)
  have l: "v < length ?vs1" using Cons.prems(2) by simp
  have cg: "compute_heuristic alg ?vs1 v = compute_heuristic alg vs v"
    by (rule compute_heuristic_cong) simp_all
  from Cons.IH[OF sb l] show ?case
    unfolding cg nth_heuristic_update using Cons.prems(2) by auto
qed

text \<open>
  Claim C4. At every selection step of a DSATUR run on a well-formed graph, the scan
  stores for each uncolored vertex the number of distinct colors among its colored
  neighbors (the scan changes no color and no adjacency list). So a vertex whose colored
  neighbors all share one color has the value 1, however many they are.
\<close>

theorem C4_saturation_degree:
  assumes "well_formed n g" and "std_sort_contract srt" and "1 \<le> n"
    and "greedy_reachable srt g n ''DSATUR'' s"
    and "select_best ''DSATUR'' (uncolored_vertices_ptrs s) (g_vertices s, None) = (vs', best)"
    and "v \<in> set (uncolored_vertices_ptrs s)"
  shows "heuristic_value (vs' ! v) =
           int (card ((\<lambda>u. color (vs' ! u)) `
                  {u \<in> set (neighbors (vs' ! v)). color (vs' ! u) \<noteq> -1})) \<and>
         map color vs' = map color (g_vertices s) \<and>
         map neighbors vs' = map neighbors (g_vertices s) \<and>
         ((\<exists>u \<in> set (neighbors (vs' ! v)). color (vs' ! u) \<noteq> -1) \<and>
          (\<forall>u \<in> set (neighbors (vs' ! v)). color (vs' ! u) \<noteq> -1 \<longrightarrow> color (vs' ! u) = c)
          \<longrightarrow> heuristic_value (vs' ! v) = 1)"
proof -
  let ?vs = "g_vertices s"
  have inv: "greedy_inv n s" using greedy_reachable_inv[OF assms(1-4)] by blast
  have len: "length ?vs = Suc n"
    using inv unfolding greedy_inv_def well_formed_def valid_indices_def by blast
  have "v \<in> {1..n}" using inv assms(6) unfolding greedy_inv_def by blast
  then have vl: "v < length ?vs" using len by simp
  have keep: "graph_of vs' = graph_of ?vs" "map color vs' = map color ?vs"
    using select_best_keeps[OF assms(5)] by simp_all
  note sv = same_view[OF keep]
  have h: "heuristic_value (vs' ! v) =
      int (card ((\<lambda>u. color (vs' ! u)) ` {u \<in> set (neighbors (vs' ! v)). color (vs' ! u) \<noteq> -1}))"
    using select_best_heuristic[OF assms(5) vl] assms(6)
    unfolding sv by (simp add: compute_heuristic_def dsatur_heuristic_card)
  have nb: "map neighbors vs' = map neighbors ?vs"
  proof (rule nth_equalityI)
    show "length (map neighbors vs') = length (map neighbors ?vs)"
      using graph_of_length[OF keep(1)] by simp
  next
    fix i assume "i < length (map neighbors vs')"
    then show "map neighbors vs' ! i = map neighbors ?vs ! i"
      using graph_of_length[OF keep(1)] sv(2) by simp
  qed
  have one: "heuristic_value (vs' ! v) = 1"
    if e: "\<exists>u \<in> set (neighbors (vs' ! v)). color (vs' ! u) \<noteq> -1"
      and a: "\<forall>u \<in> set (neighbors (vs' ! v)). color (vs' ! u) \<noteq> -1 \<longrightarrow> color (vs' ! u) = c"
  proof -
    have "(\<lambda>u. color (vs' ! u)) ` {u \<in> set (neighbors (vs' ! v)). color (vs' ! u) \<noteq> -1} = {c}"
      using e a by auto
    then show ?thesis using h by simp
  qed
  show ?thesis using h keep(2) nb one by blast
qed

theorem C4_saturation_degree_witness:
  "well_formed 4 four_cycle \<and> std_sort_contract stable_sort \<and> (1::nat) \<le> 4 \<and>
   greedy_reachable stable_sort four_cycle 4 ''DSATUR''
     (greedy_steps 2 ''DSATUR'' (snd (greedy_init stable_sort four_cycle 4))) \<and>
   4 \<in> set (uncolored_vertices_ptrs
              (greedy_steps 2 ''DSATUR'' (snd (greedy_init stable_sort four_cycle 4)))) \<and>
   map (\<lambda>u. color (g_vertices
                     (greedy_steps 2 ''DSATUR'' (snd (greedy_init stable_sort four_cycle 4))) ! u))
     (neighbors (four_cycle ! 4)) = [0, 0] \<and>
   heuristic_value
     (fst (select_best ''DSATUR''
             (uncolored_vertices_ptrs
                (greedy_steps 2 ''DSATUR'' (snd (greedy_init stable_sort four_cycle 4))))
             (g_vertices (greedy_steps 2 ''DSATUR'' (snd (greedy_init stable_sort four_cycle 4))),
              None)) ! 4) = 1"
proof -
  let ?s = "greedy_steps 2 ''DSATUR'' (snd (greedy_init stable_sort four_cycle 4))"
  let ?X = "select_best ''DSATUR'' (uncolored_vertices_ptrs ?s) (g_vertices ?s, None)"
  have w: "well_formed 4 four_cycle" by code_simp
  have n: "(1::nat) \<le> 4" by simp
  have r: "greedy_reachable stable_sort four_cycle 4 ''DSATUR'' ?s"
    by (rule greedy_steps_reachable[OF w stable_sort_contract n greedy_reachable.start])
  have sel: "?X = (fst ?X, snd ?X)" by simp
  have m: "4 \<in> set (uncolored_vertices_ptrs ?s)" by code_simp
  have cs: "map (\<lambda>u. color (g_vertices ?s ! u)) (neighbors (four_cycle ! 4)) = [0, 0]"
    by code_simp
  have e: "\<exists>u \<in> set (neighbors (fst ?X ! 4)). color (fst ?X ! u) \<noteq> -1" by code_simp
  have a: "\<forall>u \<in> set (neighbors (fst ?X ! 4)). color (fst ?X ! u) \<noteq> -1 \<longrightarrow> color (fst ?X ! u) = 0"
    by code_simp
  have "heuristic_value (fst ?X ! 4) = 1"
    using C4_saturation_degree[OF w stable_sort_contract n r sel m, of 0] e a by blast
  then show ?thesis using w stable_sort_contract n r m cs by blast
qed

section \<open>One iteration of the generic driver (claims C2 and C3)\<close>

lemma first_valid_color_none:
  "\<forall>c \<in> set pal. \<not> isColorValid v c vs \<Longrightarrow> first_valid_color v pal vs = -1"
  by (induction pal) simp_all

lemma first_valid_color_some:
  "\<exists>c \<in> set pal. isColorValid v c vs \<Longrightarrow>
   first_valid_color v pal vs \<in> set pal \<and> isColorValid v (first_valid_color v pal vs) vs"
  by (induction pal) auto

lemma greedy_inv_first_fit_step:
  assumes inv: "greedy_inv n s" and ne: "uncolored_vertices_ptrs s \<noteq> []"
  shows "first_fit_step n alg s"
proof -
  let ?vs0 = "g_vertices s"
  obtain vs1 r where sel: "select_best alg (uncolored_vertices_ptrs s) (?vs0, None) = (vs1, r)"
    by (cases "select_best alg (uncolored_vertices_ptrs s) (?vs0, None)")
  obtain b where r: "r = Some b" using select_best_nonempty[OF ne sel] by blast
  have b: "b \<in> set (uncolored_vertices_ptrs s)" using select_best_member sel r by blast
  have keep: "graph_of vs1 = graph_of ?vs0" "map color vs1 = map color ?vs0"
    using select_best_keeps[OF sel] by simp_all
  note v = same_view[OF keep]
  let ?s' = "greedy_assign s vs1 b"
  let ?ch = "chosen_color_of s vs1 b"
  have it: "greedy_iteration alg s = Continue ?s'"
    by (simp add: greedy_iteration_def sel r)
  have inv': "greedy_inv n ?s'" using greedy_assign_inv[OF inv keep b] .
  have wf0: "well_formed n ?vs0" using inv unfolding greedy_inv_def by blast
  have vi0: "valid_indices n ?vs0" using wf0 unfolding well_formed_def by blast
  have len: "length vs1 = Suc n"
    using valid_indices_length[OF vi0] graph_of_length[OF keep(1)] by simp
  have ptrs: "set (uncolored_vertices_ptrs s) = {i \<in> {1..n}. color (?vs0 ! i) = -1}"
    and dist: "distinct (uncolored_vertices_ptrs s)"
    using inv unfolding greedy_inv_def by blast+
  have bn: "b \<in> {1..n}" and cb0: "color (?vs0 ! b) = -1" using b ptrs by auto
  have bl: "b < length vs1" using bn len by simp
  obtain k where nx: "next_available_color_idx s = int k" and pal: "color_palette s = map int [0..<k]"
    using inv unfolding greedy_inv_def by blast
  have lenp: "length (color_palette s) = k" using pal by simp
  have rng0: "color (?vs0 ! i) = -1 \<or> (0 \<le> color (?vs0 ! i) \<and> color (?vs0 ! i) < int k)"
    if "i \<in> {1..n}" for i
    using inv that nx unfolding greedy_inv_def by simp
  have nbrange: "\<forall>nb \<in> set (neighbors (vs1 ! b)). color (vs1 ! nb) < int k"
  proof
    fix nb assume "nb \<in> set (neighbors (vs1 ! b))"
    then have "nb \<in> set (neighbors (?vs0 ! b))" unfolding v .
    then have rr: "nb \<in> {1..n}" using valid_indices_range[OF vi0 bn] by blast
    show "color (vs1 ! nb) < int k" unfolding v using rng0[OF rr] by auto
  qed
  note cf = chosen_color_facts[OF nx pal nbrange]
  have colb: "color (g_vertices ?s' ! b) = ?ch"
    unfolding greedy_assign_fields using nth_color_update_all[OF bl, of ?ch b] by simp
  have colo: "\<forall>i. i \<noteq> b \<longrightarrow> color (g_vertices ?s' ! i) = color (?vs0 ! i)"
    unfolding greedy_assign_fields using nth_color_update_all[OF bl, of ?ch] v(1) by simp
  have pall: "color_palette s = map int [0..<length (color_palette s)]"
    and nxl: "next_available_color_idx s = int (length (color_palette s))"
    using pal nx lenp by simp_all
  have neg: "c \<noteq> -1" if "c \<in> set (color_palette s)" for c using that pal by auto
  have br: "if \<exists>c \<in> set (color_palette s). isColorValid (vs1 ! b) c vs1
         then ?ch \<in> set (color_palette s) \<and>
              color_palette ?s' = color_palette s \<and>
              next_available_color_idx ?s' = next_available_color_idx s
         else ?ch = next_available_color_idx s \<and>
              color_palette ?s' = color_palette s @ [next_available_color_idx s] \<and>
              next_available_color_idx ?s' = next_available_color_idx s + 1"
  proof (cases "\<exists>c \<in> set (color_palette s). isColorValid (vs1 ! b) c vs1")
    case True
    from first_valid_color_some[OF True]
    have m: "first_valid_color (vs1 ! b) (color_palette s) vs1 \<in> set (color_palette s)" by blast
    then have "first_valid_color (vs1 ! b) (color_palette s) vs1 \<noteq> -1" using neg by blast
    then show ?thesis using True m
      by (simp add: greedy_assign_fields chosen_color_of_def Let_def)
  next
    case False
    then have "first_valid_color (vs1 ! b) (color_palette s) vs1 = -1"
      using first_valid_color_none by blast
    then show ?thesis using False
      by (simp add: greedy_assign_fields chosen_color_of_def Let_def)
  qed
  have rem: "uncolored_vertices_ptrs ?s' = removeAll b (uncolored_vertices_ptrs s)"
    by (simp add: greedy_assign_fields)
  have "length (removeAll b (uncolored_vertices_ptrs s)) = length (uncolored_vertices_ptrs s) - 1"
    using dist b by (simp add: distinct_remove1_removeAll[symmetric] length_remove1)
  moreover have "0 < length (uncolored_vertices_ptrs s)" using ne by simp
  ultimately have lenr: "length (uncolored_vertices_ptrs ?s') + 1 = length (uncolored_vertices_ptrs s)"
    using rem by simp
  have set': "set (uncolored_vertices_ptrs ?s') = {i \<in> {1..n}. color (g_vertices ?s' ! i) = -1}"
    using inv' unfolding greedy_inv_def by blast
  show ?thesis
    unfolding first_fit_step_def
    apply (rule exI[of _ vs1], rule exI[of _ b], rule exI[of _ ?s'])
    unfolding colb
    using sel[unfolded r] it keep(2) b cb0 pall nxl cf(1) cf(3) cf(4) br colo rem lenr set'[unfolded colb]
    by (intro conjI) assumption+
qed

text \<open>
  Claim C3. In a run of the generic driver (IDO or DSATUR) on a well-formed graph, at
  every iteration of the main loop: the palette is \<open>[0, 1, ..., k-1]\<close> with \<open>k\<close> the next
  unused index; the selected vertex \<open>b\<close> was uncolored and gets a valid color such that no
  smaller color is valid for it; when some color of the palette is valid the color comes
  from the palette, which stays as it is, and otherwise the color is the next unused
  index, which is appended to the palette; no other vertex changes its color. The first
  vertex of the run gets color 0, the first entry of the palette.
\<close>

theorem C3_first_fit:
  assumes "well_formed n vs" and "std_sort_contract srt" and "1 \<le> n"
    and "greedy_reachable srt vs n alg s" and "uncolored_vertices_ptrs s \<noteq> []"
  shows "first_fit_step n alg s \<and>
         color (g_vertices (snd (greedy_init srt vs n)) ! fst (greedy_init srt vs n)) = 0 \<and>
         color_palette (snd (greedy_init srt vs n)) = [0] \<and>
         next_available_color_idx (snd (greedy_init srt vs n)) = 1"
proof -
  have inv: "greedy_inv n s" using greedy_reachable_inv[OF assms(1-4)] by blast
  have a: "first_fit_step n alg s" using greedy_inv_first_fit_step[OF inv assms(5)] .
  have i: "fst (greedy_init srt vs n) \<in> {1..n}" using greedy_init_inv(3)[OF assms(1-3)] .
  have len: "length vs = Suc n" using assms(1) unfolding well_formed_def valid_indices_def by blast
  let ?st = "greedy_start srt vs n"
  let ?v = "uncolored_vertices_ptrs ?st ! 0"
  have fv: "fst (greedy_init srt vs n) = ?v" unfolding greedy_init_eq by simp
  have sv: "snd (greedy_init srt vs n) = greedy_assign ?st (g_vertices ?st) ?v"
    unfolding greedy_init_eq by simp
  have "length (g_vertices ?st) = length vs" by (simp add: greedy_start_def Let_def)
  then have vl: "?v < length (g_vertices ?st)" using i len unfolding fv by simp
  have ch: "chosen_color_of ?st (g_vertices ?st) ?v = 0"
    by (simp add: chosen_color_of_def greedy_start_def Let_def)
  have b: "color (g_vertices (snd (greedy_init srt vs n)) ! fst (greedy_init srt vs n)) = 0"
    unfolding fv sv greedy_assign_fields ch using nth_color_update_all[OF vl, of 0 ?v] by simp
  have c: "color_palette (snd (greedy_init srt vs n)) = [0]"
    "next_available_color_idx (snd (greedy_init srt vs n)) = 1"
    by (simp_all add: greedy_init_def Let_def)
  show ?thesis using a b c by blast
qed

theorem C3_first_fit_witness:
  "well_formed 4 four_cycle \<and> std_sort_contract stable_sort \<and> (1::nat) \<le> 4 \<and>
   greedy_reachable stable_sort four_cycle 4 ''IDO'' (snd (greedy_init stable_sort four_cycle 4)) \<and>
   uncolored_vertices_ptrs (snd (greedy_init stable_sort four_cycle 4)) \<noteq> [] \<and>
   first_fit_step 4 ''IDO'' (snd (greedy_init stable_sort four_cycle 4)) \<and>
   greedy_reachable stable_sort four_cycle 4 ''IDO''
     (greedy_steps 1 ''IDO'' (snd (greedy_init stable_sort four_cycle 4))) \<and>
   uncolored_vertices_ptrs (greedy_steps 1 ''IDO'' (snd (greedy_init stable_sort four_cycle 4))) \<noteq> [] \<and>
   first_fit_step 4 ''IDO'' (greedy_steps 1 ''IDO'' (snd (greedy_init stable_sort four_cycle 4))) \<and>
   map color (g_vertices (snd (greedy_init stable_sort four_cycle 4))) = [-1, 0, -1, -1, -1] \<and>
   color_palette (snd (greedy_init stable_sort four_cycle 4)) = [0] \<and>
   map color (g_vertices (greedy_steps 1 ''IDO'' (snd (greedy_init stable_sort four_cycle 4))))
     = [-1, 0, 1, -1, -1] \<and>
   color_palette (greedy_steps 1 ''IDO'' (snd (greedy_init stable_sort four_cycle 4))) = [0, 1] \<and>
   map color (g_vertices (greedy_steps 2 ''IDO'' (snd (greedy_init stable_sort four_cycle 4))))
     = [-1, 0, 1, 0, -1] \<and>
   color_palette (greedy_steps 2 ''IDO'' (snd (greedy_init stable_sort four_cycle 4))) = [0, 1]"
proof -
  let ?s0 = "snd (greedy_init stable_sort four_cycle 4)"
  let ?s1 = "greedy_steps 1 ''IDO'' ?s0"
  let ?s2 = "greedy_steps 2 ''IDO'' ?s0"
  have w: "well_formed 4 four_cycle" by code_simp
  have n: "(1::nat) \<le> 4" by simp
  have r0: "greedy_reachable stable_sort four_cycle 4 ''IDO'' ?s0"
    by (rule greedy_reachable.start)
  have r1: "greedy_reachable stable_sort four_cycle 4 ''IDO'' ?s1"
    by (rule greedy_steps_reachable[OF w stable_sort_contract n r0])
  have p0: "uncolored_vertices_ptrs ?s0 \<noteq> []" by code_simp
  have p1: "uncolored_vertices_ptrs ?s1 \<noteq> []" by code_simp
  have c0: "map color (g_vertices ?s0) = [-1, 0, -1, -1, -1]" by code_simp
  have c1: "map color (g_vertices ?s1) = [-1, 0, 1, -1, -1]" by code_simp
  have c2: "map color (g_vertices ?s2) = [-1, 0, 1, 0, -1]" by code_simp
  have q0: "color_palette ?s0 = [0]" by code_simp
  have q1: "color_palette ?s1 = [0, 1]" by code_simp
  have q2: "color_palette ?s2 = [0, 1]" by code_simp
  show ?thesis
    using C3_first_fit[OF w stable_sort_contract n r0 p0]
      C3_first_fit[OF w stable_sort_contract n r1 p1]
      w stable_sort_contract n r0 r1 p0 p1 c0 c1 c2 q0 q1 q2
    by blast
qed

section \<open>Termination (claim C2)\<close>

lemma first_fit_step_progress: "first_fit_step n alg s \<Longrightarrow> greedy_iteration_progress n alg s"
proof -
  assume "first_fit_step n alg s"
  then obtain vs1 b s' where it: "greedy_iteration alg s = Continue s'"
    and b: "b \<in> set (uncolored_vertices_ptrs s)" and cb: "color (g_vertices s ! b) = -1"
    and c0: "0 \<le> color (g_vertices s' ! b)"
    and rem: "uncolored_vertices_ptrs s' = removeAll b (uncolored_vertices_ptrs s)"
    and len: "length (uncolored_vertices_ptrs s') + 1 = length (uncolored_vertices_ptrs s)"
    and set: "set (uncolored_vertices_ptrs s') = {i \<in> {1..n}. color (g_vertices s' ! i) = -1}"
    unfolding first_fit_step_def by blast
  have "color (g_vertices s' ! b) \<noteq> -1" using c0 by simp
  then show ?thesis
    unfolding greedy_iteration_progress_def using it b cb rem len set by blast
qed

lemma rlf_reachable_inv:
  assumes wf: "well_formed n vs0" and r: "rlf_reachable vs0 n s"
  shows "rlf_outer_inv n s"
  using r
proof (induction rule: rlf_reachable.induct)
  case start
  then show ?case using rlf_start_inv[OF wf] .
next
  case (step s s')
  from rlf_class_correct[OF step.IH step.hyps(2)] step.hyps(3) show ?case by auto
qed

lemma rlf_outer_inv_progress:
  assumes inv: "rlf_outer_inv n s" and lt: "total_colored_vertices s < int n"
  shows "rlf_class_progress n s"
proof -
  from rlf_class_correct[OF inv lt] obtain s' v where
    cl: "rlf_class n s = Some (Continue s')" and inv': "rlf_outer_inv n s'"
    and t: "total_colored_vertices s < total_colored_vertices s'"
    and c: "current_color s' = current_color s + 1"
    and fm: "find_max_degree_uncolored_vertex (r_vertices s) n = Some v"
    and cv: "color (r_vertices s' ! v) = current_color s" by blast
  have t0: "total_colored_vertices s = int (card (colored_set n (r_vertices s)))"
    using inv unfolding rlf_outer_inv_def by blast
  have t1: "total_colored_vertices s' = int (card (colored_set n (r_vertices s')))"
    using inv' unfolding rlf_outer_inv_def by blast
  show ?thesis
    unfolding rlf_class_progress_def
    using cl fm find_max_Some(2)[OF fm] cv t0 t1 t c by blast
qed

lemma complete_coloring_all_colored:
  "complete_coloring n g vs k \<Longrightarrow> all_colored n vs"
  unfolding complete_coloring_def all_colored_def by fastforce

lemma greedy_loop_ends:
  assumes wf: "well_formed n vs" and srt: "std_sort_contract srt" and n: "1 \<le> n"
  shows "\<exists>s. greedy_loop alg (snd (greedy_init srt vs n)) = (s, False) \<and>
           uncolored_vertices_ptrs s = [] \<and>
           res_vertices (generic_greedy_coloring srt vs n alg) = g_vertices s"
proof -
  obtain s w where l: "greedy_loop alg (snd (greedy_init srt vs n)) = (s, w)"
    by (cases "greedy_loop alg (snd (greedy_init srt vs n))")
  from greedy_loop_inv[OF greedy_init_inv(1)[OF wf srt n] l]
  have e: "uncolored_vertices_ptrs s = []" and w: "\<not> w" by simp_all
  have "res_vertices (generic_greedy_coloring srt vs n alg) = g_vertices s"
    by (simp add: generic_greedy_pos[OF n] l)
  then show ?thesis using l e w by simp
qed

lemma rlf_outer_loop_ends:
  assumes wf: "well_formed n vs"
  shows "\<exists>s. rlf_outer_loop n \<lparr>r_vertices = reset_colors vs n, current_color = 0,
                                total_colored_vertices = 0\<rparr> = Some (s, False) \<and>
           total_colored_vertices s = int n"
proof -
  from rlf_outer_loop_correct[OF rlf_start_inv[OF wf]] obtain s where
    r: "rlf_outer_loop n \<lparr>r_vertices = reset_colors vs n, current_color = 0,
                          total_colored_vertices = 0\<rparr> = Some (s, False)"
    and inv: "rlf_outer_inv n s" and t: "int n \<le> total_colored_vertices s" by blast
  have "total_colored_vertices s = int (card (colored_set n (r_vertices s)))"
    using inv unfolding rlf_outer_inv_def by blast
  then have "total_colored_vertices s = int n"
    using t card_colored_le[of n "r_vertices s"] by simp
  then show ?thesis using r by blast
qed

text \<open>
  Claim C2. On a well-formed graph every driver returns, and with every vertex colored.
  The main loop of the generic driver ends with an empty pointer list, and each of its
  iterations takes exactly one vertex from the list, a vertex that was uncolored and now
  has a color. The outer loop of RLF ends with the counter at the number of vertices, and
  each of its iterations colors its seed and raises the counter, which is the number of
  colored vertices.
\<close>

theorem C2_termination:
  assumes "well_formed n vs" and "std_sort_contract srt"
  shows "all_colored n (res_vertices (IDO_coloring srt vs n)) \<and>
         all_colored n (res_vertices (DSATUR_coloring srt vs n)) \<and>
         (\<exists>r. RLF_coloring vs n = Some r \<and> all_colored n (res_vertices r)) \<and>
         (1 \<le> n \<longrightarrow>
            (\<forall>alg. \<exists>s. greedy_loop alg (snd (greedy_init srt vs n)) = (s, False) \<and>
               uncolored_vertices_ptrs s = [] \<and>
               res_vertices (generic_greedy_coloring srt vs n alg) = g_vertices s)) \<and>
         (\<forall>alg s. 1 \<le> n \<and> greedy_reachable srt vs n alg s \<and> uncolored_vertices_ptrs s \<noteq> []
            \<longrightarrow> greedy_iteration_progress n alg s) \<and>
         (\<exists>s. rlf_outer_loop n \<lparr>r_vertices = reset_colors vs n, current_color = 0,
                                 total_colored_vertices = 0\<rparr> = Some (s, False) \<and>
              total_colored_vertices s = int n) \<and>
         (\<forall>s. rlf_reachable vs n s \<and> total_colored_vertices s < int n
            \<longrightarrow> rlf_class_progress n s)"
proof -
  have a: "all_colored n (res_vertices (generic_greedy_coloring srt vs n alg))" for alg
    using complete_coloring_all_colored generic_greedy_complete[OF assms] by blast
  have b: "\<exists>r. RLF_coloring vs n = Some r \<and> all_colored n (res_vertices r)"
    using complete_coloring_all_colored RLF_complete[OF assms(1)] by blast
  have c: "greedy_iteration_progress n alg s"
    if "1 \<le> n \<and> greedy_reachable srt vs n alg s \<and> uncolored_vertices_ptrs s \<noteq> []" for alg s
  proof -
    have "greedy_inv n s" using greedy_reachable_inv[OF assms] that by blast
    from greedy_inv_first_fit_step[OF this] that show ?thesis
      using first_fit_step_progress by blast
  qed
  have d: "rlf_class_progress n s"
    if "rlf_reachable vs n s \<and> total_colored_vertices s < int n" for s
    using rlf_outer_inv_progress rlf_reachable_inv[OF assms(1)] that by blast
  show ?thesis
    unfolding IDO_coloring_def DSATUR_coloring_def
    using a b c d greedy_loop_ends[OF assms] rlf_outer_loop_ends[OF assms(1)] by blast
qed

theorem C2_termination_witness:
  "well_formed 3 triangle \<and> std_sort_contract stable_sort \<and>
   all_colored 3 (res_vertices (IDO_coloring stable_sort triangle 3)) \<and>
   all_colored 3 (res_vertices (DSATUR_coloring stable_sort triangle 3)) \<and>
   (\<exists>r. RLF_coloring triangle 3 = Some r \<and> all_colored 3 (res_vertices r)) \<and>
   (\<exists>s. greedy_loop ''IDO'' (snd (greedy_init stable_sort triangle 3)) = (s, False) \<and>
        uncolored_vertices_ptrs s = []) \<and>
   greedy_reachable stable_sort triangle 3 ''IDO'' (snd (greedy_init stable_sort triangle 3)) \<and>
   uncolored_vertices_ptrs (snd (greedy_init stable_sort triangle 3)) = [2, 3] \<and>
   greedy_iteration_progress 3 ''IDO'' (snd (greedy_init stable_sort triangle 3)) \<and>
   rlf_reachable triangle 3
     \<lparr>r_vertices = reset_colors triangle 3, current_color = 0, total_colored_vertices = 0\<rparr> \<and>
   rlf_class_progress 3
     \<lparr>r_vertices = reset_colors triangle 3, current_color = 0, total_colored_vertices = 0\<rparr>"
proof -
  let ?s0 = "snd (greedy_init stable_sort triangle 3)"
  let ?r0 = "\<lparr>r_vertices = reset_colors triangle 3, current_color = 0,
              total_colored_vertices = 0\<rparr>"
  note t = C2_termination[OF well_formed_triangle stable_sort_contract]
  have n: "(1::nat) \<le> 3" by simp
  have r0: "greedy_reachable stable_sort triangle 3 ''IDO'' ?s0" by (rule greedy_reachable.start)
  have p0: "uncolored_vertices_ptrs ?s0 = [2, 3]" by code_simp
  then have p0': "uncolored_vertices_ptrs ?s0 \<noteq> []" by simp
  have q0: "rlf_reachable triangle 3 ?r0" by (rule rlf_reachable.start)
  have l0: "total_colored_vertices ?r0 < int 3" by simp
  have g: "greedy_iteration_progress 3 ''IDO'' ?s0" using t n r0 p0' by blast
  have h: "rlf_class_progress 3 ?r0" using t q0 l0 by blast
  have e: "\<exists>s. greedy_loop ''IDO'' ?s0 = (s, False) \<and> uncolored_vertices_ptrs s = []"
    using t n by blast
  show ?thesis
    using t well_formed_triangle stable_sort_contract r0 p0 g q0 h e by blast
qed

section \<open>The first vertex and the seeds (claim C7)\<close>






section \<open>Two runs on vertex vectors that agree on the graph and on the colors\<close>

lemma same_colorsD:
  assumes "same_colors vs' vs"
  shows "color (vs' ! i) = color (vs ! i)" and "neighbors (vs' ! i) = neighbors (vs ! i)"
    and "degree (vs' ! i) = degree (vs ! i)" and "length vs' = length vs"
  using assms same_view[of vs' vs] graph_of_length[of vs' vs] unfolding same_colors_def by blast+

lemma same_colors_heuristic_beyond:
  assumes "same_colors vs' vs" and "\<not> p < length vs"
  shows "heuristic_value (vs' ! p) = heuristic_value (vs ! p)"
  using nth_beyond_eq[OF same_colorsD(4)[OF assms(1)], of p] assms(2) same_colorsD(4)[OF assms(1)]
  by simp

lemma same_colors_heuristic_update:
  "same_colors vs' vs \<Longrightarrow>
   same_colors (vs'[p := (vs' ! p)\<lparr>heuristic_value := h'\<rparr>]) (vs[p := (vs ! p)\<lparr>heuristic_value := h\<rparr>])"
  unfolding same_colors_def by simp

lemma same_colors_color_update:
  assumes "same_colors vs' vs"
  shows "same_colors (vs'[p := (vs' ! p)\<lparr>color := c\<rparr>]) (vs[p := (vs ! p)\<lparr>color := c\<rparr>])"
proof -
  have "map color (vs'[p := (vs' ! p)\<lparr>color := c\<rparr>]) = (map color vs')[p := c]"
    by (simp add: map_update)
  moreover have "map color (vs[p := (vs ! p)\<lparr>color := c\<rparr>]) = (map color vs)[p := c]"
    by (simp add: map_update)
  ultimately show ?thesis using assms unfolding same_colors_def by simp
qed

lemma compute_heuristic_same:
  "same_colors vs' vs \<Longrightarrow> compute_heuristic alg vs' v = compute_heuristic alg vs v"
  unfolding same_colors_def using compute_heuristic_cong by blast

lemma select_best_sim:
  assumes "same_colors vs' vs"
    and "\<forall>b. best = Some b \<longrightarrow> heuristic_value (vs' ! b) = heuristic_value (vs ! b)"
  shows "snd (select_best alg ptrs (vs', best)) = snd (select_best alg ptrs (vs, best)) \<and>
         same_colors (fst (select_best alg ptrs (vs', best))) (fst (select_best alg ptrs (vs, best)))"
  using assms
proof (induction ptrs arbitrary: vs' vs best)
  case Nil
  then show ?case by simp
next
  case (Cons p ptrs)
  let ?H = "compute_heuristic alg vs p"
  let ?vs1 = "vs[p := (vs ! p)\<lparr>heuristic_value := ?H\<rparr>]"
  let ?vs1' = "vs'[p := (vs' ! p)\<lparr>heuristic_value := ?H\<rparr>]"
  have H: "compute_heuristic alg vs' p = ?H" using compute_heuristic_same[OF Cons.prems(1)] .
  have sc1: "same_colors ?vs1' ?vs1" using same_colors_heuristic_update[OF Cons.prems(1)] .
  have len: "length vs' = length vs" using same_colorsD(4)[OF Cons.prems(1)] .
  have hp: "heuristic_value (?vs1' ! p) = heuristic_value (?vs1 ! p)"
    unfolding nth_heuristic_update len
    using same_colors_heuristic_beyond[OF Cons.prems(1), of p] by simp
  have hb: "heuristic_value (?vs1' ! b) = heuristic_value (?vs1 ! b)" if "best = Some b" for b
  proof (cases "b = p")
    case True
    then show ?thesis using hp by simp
  next
    case False
    then show ?thesis unfolding nth_heuristic_update using Cons.prems(2) that by simp
  qed
  have dg: "degree (?vs1' ! i) = degree (?vs1 ! i)" for i using same_colorsD(3)[OF sc1] .
  define nb where "nb = (case best of
               None \<Rightarrow> Some p
             | Some b \<Rightarrow>
                 if heuristic_value (?vs1 ! p) > heuristic_value (?vs1 ! b) \<or>
                    (heuristic_value (?vs1 ! p) = heuristic_value (?vs1 ! b) \<and>
                     degree (?vs1 ! p) > degree (?vs1 ! b))
                 then Some p else Some b)"
  have nb': "nb = (case best of
               None \<Rightarrow> Some p
             | Some b \<Rightarrow>
                 if heuristic_value (?vs1' ! p) > heuristic_value (?vs1' ! b) \<or>
                    (heuristic_value (?vs1' ! p) = heuristic_value (?vs1' ! b) \<and>
                     degree (?vs1' ! p) > degree (?vs1' ! b))
                 then Some p else Some b)"
    unfolding nb_def using hp hb dg by (cases best) simp_all
  have e: "select_best alg (p # ptrs) (vs, best) = select_best alg ptrs (?vs1, nb)"
    unfolding nb_def by (simp add: Let_def)
  have e': "select_best alg (p # ptrs) (vs', best) = select_best alg ptrs (?vs1', nb)"
    unfolding nb' by (simp add: Let_def H)
  have nbh: "\<forall>b. nb = Some b \<longrightarrow> heuristic_value (?vs1' ! b) = heuristic_value (?vs1 ! b)"
  proof (intro allI impI)
    fix b assume "nb = Some b"
    then have "b = p \<or> best = Some b" unfolding nb_def by (cases best) (auto split: if_splits)
    then show "heuristic_value (?vs1' ! b) = heuristic_value (?vs1 ! b)" using hp hb by blast
  qed
  show ?case unfolding e e' using Cons.IH[OF sc1 nbh] .
qed

lemma isColorValid_same:
  "same_colors vs' vs \<Longrightarrow> isColorValid (vs' ! b) c vs' = isColorValid (vs ! b) c vs"
  unfolding isColorValid_iff using same_colorsD(1,2)[of vs' vs] by simp

lemma first_valid_color_same:
  "same_colors vs' vs \<Longrightarrow>
   first_valid_color (vs' ! b) pal vs' = first_valid_color (vs ! b) pal vs"
  by (induction pal) (simp_all add: isColorValid_same)

lemma greedy_assign_sim:
  assumes st: "same_state s' s" and sc: "same_colors vs' vs"
  shows "same_state (greedy_assign s' vs' b) (greedy_assign s vs b)"
proof -
  have p: "color_palette s' = color_palette s"
    and n: "next_available_color_idx s' = next_available_color_idx s"
    and u: "uncolored_vertices_ptrs s' = uncolored_vertices_ptrs s"
    using st unfolding same_state_def by blast+
  have f: "first_valid_color (vs' ! b) (color_palette s) vs' =
           first_valid_color (vs ! b) (color_palette s) vs"
    using first_valid_color_same[OF sc] .
  have ch: "chosen_color_of s' vs' b = chosen_color_of s vs b"
    unfolding chosen_color_of_def p f n ..
  show ?thesis
    unfolding same_state_def greedy_assign_fields ch p n u f
    using same_colors_color_update[OF sc] by simp
qed

lemma greedy_iteration_sim:
  assumes st: "same_state s' s"
  shows "(\<exists>t' t. greedy_iteration alg s' = Continue t' \<and> greedy_iteration alg s = Continue t \<and>
            same_state t' t) \<or>
         (\<exists>t' t. greedy_iteration alg s' = Break t' \<and> greedy_iteration alg s = Break t \<and>
            same_state t' t)"
proof -
  have sc: "same_colors (g_vertices s') (g_vertices s)"
    and u: "uncolored_vertices_ptrs s' = uncolored_vertices_ptrs s"
    using st unfolding same_state_def by blast+
  let ?X = "select_best alg (uncolored_vertices_ptrs s) (g_vertices s, None)"
  let ?X' = "select_best alg (uncolored_vertices_ptrs s) (g_vertices s', None)"
  have sim: "snd ?X' = snd ?X" "same_colors (fst ?X') (fst ?X)"
    using select_best_sim[OF sc, of None alg "uncolored_vertices_ptrs s"] by simp_all
  obtain vs1 r where X: "?X = (vs1, r)" by (cases ?X)
  obtain vs1' where X': "?X' = (vs1', r)" using sim(1) X by (cases ?X') simp
  have sc1: "same_colors vs1' vs1" using sim(2) X X' by simp
  show ?thesis
  proof (cases r)
    case None
    have "same_state (s'\<lparr>g_vertices := vs1'\<rparr>) (s\<lparr>g_vertices := vs1\<rparr>)"
      using st sc1 unfolding same_state_def by simp
    then show ?thesis
      unfolding greedy_iteration_def u X X' None by simp
  next
    case (Some b)
    show ?thesis
      unfolding greedy_iteration_def u X X' Some using greedy_assign_sim[OF st sc1] by simp
  qed
qed

lemma greedy_loop_sim:
  "same_state s' s \<Longrightarrow>
   same_state (fst (greedy_loop alg s')) (fst (greedy_loop alg s)) \<and>
   snd (greedy_loop alg s') = snd (greedy_loop alg s)"
proof (induction alg s arbitrary: s' rule: greedy_loop.induct)
  case (1 alg s)
  have u: "uncolored_vertices_ptrs s' = uncolored_vertices_ptrs s"
    using "1.prems" unfolding same_state_def by blast
  show ?case
  proof (cases "uncolored_vertices_ptrs s = []")
    case True
    then show ?thesis
      using "1.prems" u by (simp add: greedy_loop.simps[of alg s] greedy_loop.simps[of alg s'])
  next
    case False
    from greedy_iteration_sim[OF "1.prems", of alg] show ?thesis
    proof (elim disjE exE conjE)
      fix t' t assume c: "greedy_iteration alg s' = Continue t'" "greedy_iteration alg s = Continue t"
        and st: "same_state t' t"
      from "1.IH"[OF False c(2) st] show ?thesis
        using False u c by (simp add: greedy_loop.simps[of alg s] greedy_loop.simps[of alg s'])
    next
      fix t' t assume c: "greedy_iteration alg s' = Break t'" "greedy_iteration alg s = Break t"
        and st: "same_state t' t"
      then show ?thesis
        using False u c by (simp add: greedy_loop.simps[of alg s] greedy_loop.simps[of alg s'])
    qed
  qed
qed

lemma reset_colors_untouched:
  assumes "i \<notin> {1..n}"
  shows "color (reset_colors vs n ! i) = color (vs ! i)"
proof (cases "i < length vs")
  case True
  define ns where "ns = [1..<Suc n]"
  have "set ns = {1..n}"
    unfolding ns_def by (simp add: atLeastLessThanSuc_atLeastAtMost del: upt_Suc)
  then have ni: "i \<notin> set ns" using assms by simp
  have "reset_colors vs n = fold (\<lambda>i vs. vs[i := (vs ! i)\<lparr>color := -1\<rparr>]) ns vs"
    unfolding reset_colors_def ns_def ..
  then show ?thesis using reset_fold_color[OF True, of ns] ni by simp
next
  case False
  then show ?thesis using nth_beyond_eq[of "reset_colors vs n" vs i] by simp
qed

lemma reset_colors_reset:
  assumes "i \<in> {1..n}" "i < length vs"
  shows "color (reset_colors vs n ! i) = -1"
  using reset_colors_color[OF assms] .

lemma reset_same:
  assumes g: "graph_of vs' = graph_of vs"
    and c: "\<forall>i. i \<notin> {1..n} \<longrightarrow> color (vs' ! i) = color (vs ! i)"
  shows "same_colors (reset_colors vs' n) (reset_colors vs n)"
proof -
  have len: "length vs' = length vs" using graph_of_length[OF g] .
  have "map color (reset_colors vs' n) = map color (reset_colors vs n)"
  proof (rule nth_equalityI)
    show "length (map color (reset_colors vs' n)) = length (map color (reset_colors vs n))"
      using len by simp
  next
    fix i assume "i < length (map color (reset_colors vs' n))"
    then have il: "i < length vs'" "i < length vs" using len by simp_all
    have "color (reset_colors vs' n ! i) = color (reset_colors vs n ! i)"
    proof (cases "i \<in> {1..n}")
      case True
      then show ?thesis using reset_colors_reset[OF True il(1)] reset_colors_reset[OF True il(2)] by simp
    next
      case False
      then show ?thesis using reset_colors_untouched[OF False] c by simp
    qed
    then show "map color (reset_colors vs' n) ! i = map color (reset_colors vs n) ! i"
      using il by simp
  qed
  then show ?thesis unfolding same_colors_def using g by simp
qed

lemma greedy_init_sim:
  assumes sc: "same_colors (reset_colors vs' n) (reset_colors vs n)"
    and srt: "std_sort_contract srt"
  shows "fst (greedy_init srt vs' n) = fst (greedy_init srt vs n) \<and>
         same_state (snd (greedy_init srt vs' n)) (snd (greedy_init srt vs n))"
proof -
  let ?R = "reset_colors vs n" and ?R' = "reset_colors vs' n"
  define ns where "ns = [1..<Suc n]"
  have "srt (\<lambda>a b. degree (?R' ! a) > degree (?R' ! b)) ns =
        srt (\<lambda>a b. degree (?R ! a) > degree (?R ! b)) ns"
    by (rule contract_cong[OF srt]) (simp add: same_colorsD(3)[OF sc])
  then have e: "srt (\<lambda>a b. degree (?R' ! a) > degree (?R' ! b)) [1..<Suc n] =
        srt (\<lambda>a b. degree (?R ! a) > degree (?R ! b)) [1..<Suc n]"
    unfolding ns_def .
  show ?thesis
    unfolding greedy_init_def Let_def e same_state_def
    using same_colors_color_update[OF sc] by simp
qed

lemma generic_greedy_sim:
  assumes sc: "same_colors (reset_colors vs' n) (reset_colors vs n)"
    and srt: "std_sort_contract srt"
  shows "same_colors (res_vertices (generic_greedy_coloring srt vs' n alg))
           (res_vertices (generic_greedy_coloring srt vs n alg)) \<and>
         res_colors (generic_greedy_coloring srt vs' n alg) =
           res_colors (generic_greedy_coloring srt vs n alg) \<and>
         res_warned (generic_greedy_coloring srt vs' n alg) =
           res_warned (generic_greedy_coloring srt vs n alg)"
proof (cases "n = 0")
  case True
  then show ?thesis using sc by (simp add: generic_greedy_zero)
next
  case False
  then have n: "1 \<le> n" by simp
  let ?l = "greedy_loop alg (snd (greedy_init srt vs n))"
  let ?l' = "greedy_loop alg (snd (greedy_init srt vs' n))"
  have st: "same_state (snd (greedy_init srt vs' n)) (snd (greedy_init srt vs n))"
    using greedy_init_sim[OF sc srt] by blast
  from greedy_loop_sim[OF st, of alg]
  have a: "same_state (fst ?l') (fst ?l)" and b: "snd ?l' = snd ?l" by blast+
  have r: "generic_greedy_coloring srt vs n alg =
      \<lparr>res_vertices = g_vertices (fst ?l), res_colors = next_available_color_idx (fst ?l),
       res_warned = snd ?l\<rparr>"
    unfolding generic_greedy_pos[OF n] by (simp add: case_prod_beta)
  have r': "generic_greedy_coloring srt vs' n alg =
      \<lparr>res_vertices = g_vertices (fst ?l'), res_colors = next_available_color_idx (fst ?l'),
       res_warned = snd ?l'\<rparr>"
    unfolding generic_greedy_pos[OF n] by (simp add: case_prod_beta)
  show ?thesis unfolding r r' using a b unfolding same_state_def by simp
qed

lemma greedy_loop_untouched:
  "i \<notin> set (uncolored_vertices_ptrs s) \<Longrightarrow>
   color (g_vertices (fst (greedy_loop alg s)) ! i) = color (g_vertices s ! i)"
proof (induction alg s rule: greedy_loop.induct)
  case (1 alg s)
  show ?case
  proof (cases "uncolored_vertices_ptrs s = []")
    case True
    then show ?thesis by (simp add: greedy_loop.simps[of alg s])
  next
    case False
    obtain vs1 r where sel: "select_best alg (uncolored_vertices_ptrs s) (g_vertices s, None) = (vs1, r)"
      by (cases "select_best alg (uncolored_vertices_ptrs s) (g_vertices s, None)")
    obtain b where r: "r = Some b" using select_best_nonempty[OF False sel] by blast
    have b: "b \<in> set (uncolored_vertices_ptrs s)" using select_best_member sel r by blast
    have keep: "graph_of vs1 = graph_of (g_vertices s)" "map color vs1 = map color (g_vertices s)"
      using select_best_keeps[OF sel] by simp_all
    have it: "greedy_iteration alg s = Continue (greedy_assign s vs1 b)"
      by (simp add: greedy_iteration_def sel r)
    have ib: "i \<noteq> b" using b "1.prems" by blast
    have ni: "i \<notin> set (uncolored_vertices_ptrs (greedy_assign s vs1 b))"
      using "1.prems" by (simp add: greedy_assign_fields)
    have "color (g_vertices (greedy_assign s vs1 b) ! i) = color (vs1 ! i)"
      unfolding greedy_assign_fields using ib by simp
    also have "\<dots> = color (g_vertices s ! i)" using same_view(1)[OF keep] .
    finally have c: "color (g_vertices (greedy_assign s vs1 b) ! i) = color (g_vertices s ! i)" .
    have "greedy_loop alg s = greedy_loop alg (greedy_assign s vs1 b)"
      using False it by (simp add: greedy_loop.simps[of alg s])
    then show ?thesis using "1.IH"[OF False it ni] c by simp
  qed
qed

lemma generic_greedy_untouched:
  assumes wf: "well_formed n vs" and srt: "std_sort_contract srt" and i: "i \<notin> {1..n}"
  shows "color (res_vertices (generic_greedy_coloring srt vs n alg) ! i) = color (vs ! i)"
proof (cases "n = 0")
  case True
  then show ?thesis using reset_colors_untouched[OF i] by (simp add: generic_greedy_zero)
next
  case False
  then have n: "1 \<le> n" by simp
  let ?st = "greedy_start srt vs n"
  let ?v = "uncolored_vertices_ptrs ?st ! 0"
  let ?s1 = "snd (greedy_init srt vs n)"
  have sv: "?s1 = greedy_assign ?st (g_vertices ?st) ?v" unfolding greedy_init_eq by simp
  have v: "?v \<in> {1..n}" using greedy_init_inv(3)[OF wf srt n] unfolding greedy_init_eq by simp
  have iv: "i \<noteq> ?v" using v i by blast
  have gv: "g_vertices ?st = reset_colors vs n" by (simp add: greedy_start_def Let_def)
  have c1: "color (g_vertices ?s1 ! i) = color (vs ! i)"
    unfolding sv greedy_assign_fields gv using iv reset_colors_untouched[OF i] by simp
  have "set (uncolored_vertices_ptrs ?s1) \<subseteq> {1..n}"
    unfolding sv greedy_assign_fields using greedy_start_ptrs(1)[OF srt, of vs n] by auto
  then have ni: "i \<notin> set (uncolored_vertices_ptrs ?s1)" using i by blast
  have "res_vertices (generic_greedy_coloring srt vs n alg) = g_vertices (fst (greedy_loop alg ?s1))"
    unfolding generic_greedy_pos[OF n] by (simp add: case_prod_beta)
  then show ?thesis using greedy_loop_untouched[OF ni, of alg] c1 by simp
qed

lemma generic_greedy_graph:
  assumes wf: "well_formed n vs" and srt: "std_sort_contract srt"
  shows "graph_of (res_vertices (generic_greedy_coloring srt vs n alg)) = graph_of vs"
  using generic_greedy_complete[OF wf srt, of alg] unfolding complete_coloring_def by blast

lemma generic_greedy_rerun:
  assumes wf: "well_formed n vs" and srt: "std_sort_contract srt"
  shows "map color (res_vertices (generic_greedy_coloring srt
              (res_vertices (generic_greedy_coloring srt vs n alg)) n alg)) =
         map color (res_vertices (generic_greedy_coloring srt vs n alg)) \<and>
         res_colors (generic_greedy_coloring srt
              (res_vertices (generic_greedy_coloring srt vs n alg)) n alg) =
         res_colors (generic_greedy_coloring srt vs n alg)"
proof -
  let ?r1 = "res_vertices (generic_greedy_coloring srt vs n alg)"
  have sc: "same_colors (reset_colors ?r1 n) (reset_colors vs n)"
    using reset_same[OF generic_greedy_graph[OF wf srt]] generic_greedy_untouched[OF wf srt]
    by blast
  from generic_greedy_sim[OF sc srt, of alg] show ?thesis unfolding same_colors_def by blast
qed

lemma find_max_scan_same:
  assumes "same_colors vs' vs"
  shows "find_max_scan vs' ns st = find_max_scan vs ns st"
proof (induction ns arbitrary: st)
  case Nil
  then show ?case by simp
next
  case (Cons i ns)
  obtain m d where st: "st = (m, d)" by (cases st)
  show ?case
    unfolding st using Cons.IH same_colorsD(1,3)[OF assms] by simp
qed

lemma find_max_same:
  "same_colors vs' vs \<Longrightarrow>
   find_max_degree_uncolored_vertex vs' n = find_max_degree_uncolored_vertex vs n"
  unfolding find_max_degree_uncolored_vertex_def using find_max_scan_same by simp

lemma rlf_scan_sim:
  assumes "same_colors vs' vs"
  shows "snd (rlf_scan f ks (vs', cand, m)) = snd (rlf_scan f ks (vs, cand, m)) \<and>
         same_colors (fst (rlf_scan f ks (vs', cand, m))) (fst (rlf_scan f ks (vs, cand, m)))"
  using assms
proof (induction ks arbitrary: vs' vs cand m)
  case Nil
  then show ?case by simp
next
  case (Cons k ks)
  note sc = Cons.prems
  have ck: "color (vs' ! k) = color (vs ! k)" using same_colorsD(1)[OF sc] .
  show ?case
  proof (cases "color (vs ! k) = -1 \<and> \<not> f ! k")
    case False
    then have "rlf_scan f (k # ks) (vs, cand, m) = rlf_scan f ks (vs, cand, m)"
      and "rlf_scan f (k # ks) (vs', cand, m) = rlf_scan f ks (vs', cand, m)"
      using ck by auto
    then show ?thesis using Cons.IH[OF sc] by simp
  next
    case True
    let ?A = "adj_in_U f (neighbors (vs ! k))"
    let ?vs1 = "vs[k := (vs ! k)\<lparr>heuristic_value := ?A\<rparr>]"
    let ?vs1' = "vs'[k := (vs' ! k)\<lparr>heuristic_value := ?A\<rparr>]"
    have A: "adj_in_U f (neighbors (vs' ! k)) = ?A" using same_colorsD(2)[OF sc] by simp
    have sc1: "same_colors ?vs1' ?vs1" using same_colors_heuristic_update[OF sc] .
    have len: "length vs' = length vs" using same_colorsD(4)[OF sc] .
    have hk: "heuristic_value (?vs1' ! k) = heuristic_value (?vs1 ! k)"
      unfolding nth_heuristic_update len
      using same_colors_heuristic_beyond[OF sc, of k] by simp
    have dg: "degree (?vs1' ! i) = degree (?vs1 ! i)" for i using same_colorsD(3)[OF sc1] .
    define nc where "nc = (case cand of
               None \<Rightarrow> (Some k, heuristic_value (?vs1 ! k))
             | Some j \<Rightarrow>
                 if heuristic_value (?vs1 ! k) > m \<or>
                    (heuristic_value (?vs1 ! k) = m \<and> degree (?vs1 ! k) > degree (?vs1 ! j))
                 then (Some k, heuristic_value (?vs1 ! k))
                 else (Some j, m))"
    have nc': "nc = (case cand of
               None \<Rightarrow> (Some k, heuristic_value (?vs1' ! k))
             | Some j \<Rightarrow>
                 if heuristic_value (?vs1' ! k) > m \<or>
                    (heuristic_value (?vs1' ! k) = m \<and> degree (?vs1' ! k) > degree (?vs1' ! j))
                 then (Some k, heuristic_value (?vs1' ! k))
                 else (Some j, m))"
      unfolding nc_def hk dg ..
    have e: "rlf_scan f (k # ks) (vs, cand, m) = rlf_scan f ks (?vs1, fst nc, snd nc)"
      unfolding nc_def using True by (cases cand) (simp_all add: Let_def)
    have e': "rlf_scan f (k # ks) (vs', cand, m) = rlf_scan f ks (?vs1', fst nc, snd nc)"
      unfolding nc' using True ck A by (cases cand) (simp_all add: Let_def)
    show ?thesis unfolding e e' using Cons.IH[OF sc1] .
  qed
qed

lemma rlf_inner_loop_sim:
  assumes "rlf_inner_loop n c st' = Some res'"
  shows "\<forall>vs' t f vs. st' = (vs', t, f) \<and> same_colors vs' vs \<longrightarrow>
           (\<exists>ws' ws t2 f2. res' = (ws', t2, f2) \<and>
              rlf_inner_loop n c (vs, t, f) = Some (ws, t2, f2) \<and> same_colors ws' ws)"
proof (rule rlf_inner_loop.raw_induct[OF _ assms])
  fix loop :: "nat \<Rightarrow> int \<Rightarrow> Vertex list \<times> int \<times> bool list \<Rightarrow> (Vertex list \<times> int \<times> bool list) option"
    and n c st' res'
  assume IH: "\<And>n c st y. loop n c st = Some y \<Longrightarrow>
      \<forall>vs' t f vs. st = (vs', t, f) \<and> same_colors vs' vs \<longrightarrow>
           (\<exists>ws' ws t2 f2. y = (ws', t2, f2) \<and>
              rlf_inner_loop n c (vs, t, f) = Some (ws, t2, f2) \<and> same_colors ws' ws)"
    and hyp: "(case st' of
      (ws, tt, fb) \<Rightarrow>
        case rlf_scan fb [1..<Suc n] (ws, None, - 1) of
        (vs, None, m) \<Rightarrow> Some (vs, tt, fb)
        | (vs, Some j, m) \<Rightarrow>
            loop n c
             (vs[j := (vs ! j)\<lparr>color := c\<rparr>], tt + 1,
              mark_forbidden fb (neighbors (vs ! j)))) = Some res'"
  show "\<forall>vs' t f vs. st' = (vs', t, f) \<and> same_colors vs' vs \<longrightarrow>
           (\<exists>ws' ws t2 f2. res' = (ws', t2, f2) \<and>
              rlf_inner_loop n c (vs, t, f) = Some (ws, t2, f2) \<and> same_colors ws' ws)"
  proof (intro allI impI)
    fix vs' t f vs assume h: "st' = (vs', t, f) \<and> same_colors vs' vs"
    then have st: "st' = (vs', t, f)" and sc: "same_colors vs' vs" by blast+
    define ns where "ns = [1..<Suc n]"
    let ?X = "rlf_scan f ns (vs, None, -1)"
    let ?X' = "rlf_scan f ns (vs', None, -1)"
    have sim: "snd ?X' = snd ?X" "same_colors (fst ?X') (fst ?X)"
      using rlf_scan_sim[OF sc, of f ns None "-1"] by simp_all
    obtain vs1 cand m where X: "?X = (vs1, cand, m)" by (cases ?X)
    obtain vs1' where X': "?X' = (vs1', cand, m)" using sim(1) X by (cases ?X') simp
    have sc1: "same_colors vs1' vs1" using sim(2) X X' by simp
    have unf: "rlf_inner_loop n c (vs, t, f) =
       (case ?X of
           (vs, None, m) \<Rightarrow> Some (vs, t, f)
         | (vs, Some j, m) \<Rightarrow>
             rlf_inner_loop n c
               (vs[j := (vs ! j)\<lparr>color := c\<rparr>], t + 1, mark_forbidden f (neighbors (vs ! j))))"
      unfolding ns_def by (subst rlf_inner_loop.simps) simp
    have body: "(case ?X' of
           (vs, None, m) \<Rightarrow> Some (vs, t, f)
         | (vs, Some j, m) \<Rightarrow>
             loop n c
               (vs[j := (vs ! j)\<lparr>color := c\<rparr>], t + 1, mark_forbidden f (neighbors (vs ! j)))) =
         Some res'"
      using hyp unfolding st ns_def by simp
    show "\<exists>ws' ws t2 f2. res' = (ws', t2, f2) \<and>
              rlf_inner_loop n c (vs, t, f) = Some (ws, t2, f2) \<and> same_colors ws' ws"
    proof (cases cand)
      case None
      then have "res' = (vs1', t, f)" using body X' by simp
      moreover have "rlf_inner_loop n c (vs, t, f) = Some (vs1, t, f)"
        unfolding unf X None by simp
      ultimately show ?thesis using sc1 by blast
    next
      case (Some j)
      let ?n' = "(vs1'[j := (vs1' ! j)\<lparr>color := c\<rparr>], t + 1, mark_forbidden f (neighbors (vs1' ! j)))"
      let ?w = "vs1[j := (vs1 ! j)\<lparr>color := c\<rparr>]"
      have l: "loop n c ?n' = Some res'" using body X' Some by simp
      have nb: "neighbors (vs1' ! j) = neighbors (vs1 ! j)" using same_colorsD(2)[OF sc1] .
      have sc2: "same_colors (vs1'[j := (vs1' ! j)\<lparr>color := c\<rparr>]) ?w"
        using same_colors_color_update[OF sc1] .
      from IH[OF l] sc2 nb obtain ws' ws t2 f2 where
        r: "res' = (ws', t2, f2)"
        and q: "rlf_inner_loop n c (?w, t + 1, mark_forbidden f (neighbors (vs1 ! j))) = Some (ws, t2, f2)"
        and s: "same_colors ws' ws" by metis
      have "rlf_inner_loop n c (vs, t, f) = Some (ws, t2, f2)"
        unfolding unf X Some using q by simp
      then show ?thesis using r s by blast
    qed
  qed
qed

lemma rlf_class_sim:
  assumes rs: "same_rlf_state s' s" and cl: "rlf_class n s' = Some x'"
  shows "(x' = Break s' \<and> rlf_class n s = Some (Break s)) \<or>
         (\<exists>t' t. x' = Continue t' \<and> rlf_class n s = Some (Continue t) \<and> same_rlf_state t' t)"
proof -
  have sc: "same_colors (r_vertices s') (r_vertices s)"
    and c: "current_color s' = current_color s"
    and t: "total_colored_vertices s' = total_colored_vertices s"
    using rs unfolding same_rlf_state_def by blast+
  have fm: "find_max_degree_uncolored_vertex (r_vertices s') n =
            find_max_degree_uncolored_vertex (r_vertices s) n"
    using find_max_same[OF sc] .
  show ?thesis
  proof (cases "find_max_degree_uncolored_vertex (r_vertices s) n")
    case None
    then show ?thesis using cl fm unfolding rlf_class_def by simp
  next
    case (Some v)
    let ?c = "current_color s"
    let ?w = "(r_vertices s)[v := (r_vertices s ! v)\<lparr>color := ?c\<rparr>]"
    let ?w' = "(r_vertices s')[v := (r_vertices s' ! v)\<lparr>color := ?c\<rparr>]"
    let ?f = "mark_forbidden (replicate (n + 1) False) (neighbors (r_vertices s ! v))"
    have sc1: "same_colors ?w' ?w" using same_colors_color_update[OF sc] .
    have nb: "neighbors (r_vertices s' ! v) = neighbors (r_vertices s ! v)"
      using same_colorsD(2)[OF sc] .
    have cl': "rlf_class n s' =
        (case rlf_inner_loop n ?c (?w', total_colored_vertices s + 1, ?f) of
           None \<Rightarrow> None
         | Some (vs', total', forbidden') \<Rightarrow>
             Some (Continue \<lparr>r_vertices = vs', current_color = ?c + 1,
                              total_colored_vertices = total'\<rparr>))"
      unfolding rlf_class_def fm Some c t
      by (simp add: Let_def nth_neighbors_color_update nb)
    have cl0: "rlf_class n s =
        (case rlf_inner_loop n ?c (?w, total_colored_vertices s + 1, ?f) of
           None \<Rightarrow> None
         | Some (vs', total', forbidden') \<Rightarrow>
             Some (Continue \<lparr>r_vertices = vs', current_color = ?c + 1,
                              total_colored_vertices = total'\<rparr>))"
      unfolding rlf_class_def Some by (simp add: Let_def nth_neighbors_color_update)
    obtain res' where r': "rlf_inner_loop n ?c (?w', total_colored_vertices s + 1, ?f) = Some res'"
      using cl unfolding cl' by (cases "rlf_inner_loop n ?c (?w', total_colored_vertices s + 1, ?f)") auto
    from rlf_inner_loop_sim[OF r'] sc1 obtain ws' ws t2 f2 where
      e: "res' = (ws', t2, f2)"
      and r: "rlf_inner_loop n ?c (?w, total_colored_vertices s + 1, ?f) = Some (ws, t2, f2)"
      and s2: "same_colors ws' ws" by blast
    have x': "x' = Continue \<lparr>r_vertices = ws', current_color = ?c + 1, total_colored_vertices = t2\<rparr>"
      using cl unfolding cl' r' e by simp
    have x: "rlf_class n s =
        Some (Continue \<lparr>r_vertices = ws, current_color = ?c + 1, total_colored_vertices = t2\<rparr>)"
      unfolding cl0 r by simp
    have "same_rlf_state \<lparr>r_vertices = ws', current_color = ?c + 1, total_colored_vertices = t2\<rparr>
            \<lparr>r_vertices = ws, current_color = ?c + 1, total_colored_vertices = t2\<rparr>"
      unfolding same_rlf_state_def using s2 by simp
    then show ?thesis using x' x by blast
  qed
qed

lemma rlf_outer_loop_sim:
  assumes "rlf_outer_loop n s' = Some res'"
  shows "\<forall>s. same_rlf_state s' s \<longrightarrow>
           (\<exists>t. rlf_outer_loop n s = Some (t, snd res') \<and> same_rlf_state (fst res') t)"
proof (rule rlf_outer_loop.raw_induct[OF _ assms])
  fix loop :: "nat \<Rightarrow> rlf_state \<Rightarrow> (rlf_state \<times> bool) option" and n s' res'
  assume IH: "\<And>n s y. loop n s = Some y \<Longrightarrow>
      \<forall>s2. same_rlf_state s s2 \<longrightarrow>
           (\<exists>t. rlf_outer_loop n s2 = Some (t, snd y) \<and> same_rlf_state (fst y) t)"
    and hyp: "(if total_colored_vertices s' < int n
      then case rlf_class n s' of None \<Rightarrow> None
           | Some (Break x) \<Rightarrow> Some (x, True)
           | Some (Continue x) \<Rightarrow> loop n x
      else Some (s', False)) = Some res'"
  show "\<forall>s. same_rlf_state s' s \<longrightarrow>
           (\<exists>t. rlf_outer_loop n s = Some (t, snd res') \<and> same_rlf_state (fst res') t)"
  proof (intro allI impI)
    fix s assume rs: "same_rlf_state s' s"
    have t: "total_colored_vertices s' = total_colored_vertices s"
      using rs unfolding same_rlf_state_def by blast
    show "\<exists>t. rlf_outer_loop n s = Some (t, snd res') \<and> same_rlf_state (fst res') t"
    proof (cases "total_colored_vertices s < int n")
      case False
      then have "res' = (s', False)" using hyp t by simp
      moreover have "rlf_outer_loop n s = Some (s, False)"
        using False by (subst rlf_outer_loop.simps) simp
      ultimately show ?thesis using rs by simp
    next
      case True
      then have h: "(case rlf_class n s' of None \<Rightarrow> None
           | Some (Break x) \<Rightarrow> Some (x, True)
           | Some (Continue x) \<Rightarrow> loop n x) = Some res'"
        using hyp t by simp
      then obtain x' where cl: "rlf_class n s' = Some x'"
        by (cases "rlf_class n s'") auto
      from rlf_class_sim[OF rs cl] show ?thesis
      proof (elim disjE exE conjE)
        assume b: "x' = Break s'" "rlf_class n s = Some (Break s)"
        then have "res' = (s', True)" using h cl by simp
        moreover have "rlf_outer_loop n s = Some (s, True)"
          using True b(2) by (subst rlf_outer_loop.simps) simp
        ultimately show ?thesis using rs by simp
      next
        fix t' t0 assume c: "x' = Continue t'" "rlf_class n s = Some (Continue t0)"
          and rs1: "same_rlf_state t' t0"
        have l: "loop n t' = Some res'" using h cl c(1) by simp
        from IH[OF l] rs1 obtain t1 where
          r: "rlf_outer_loop n t0 = Some (t1, snd res')" and s1: "same_rlf_state (fst res') t1"
          by blast
        have "rlf_outer_loop n s = Some (t1, snd res')"
          using True c(2) r by (subst rlf_outer_loop.simps) simp
        then show ?thesis using s1 by blast
      qed
    qed
  qed
qed

lemma RLF_coloring_sim:
  assumes sc: "same_colors (reset_colors vs' n) (reset_colors vs n)"
    and r': "RLF_coloring vs' n = Some r'"
  shows "\<exists>r. RLF_coloring vs n = Some r \<and> same_colors (res_vertices r') (res_vertices r) \<and>
           res_colors r' = res_colors r \<and> res_warned r' = res_warned r"
proof -
  let ?s0 = "\<lparr>r_vertices = reset_colors vs n, current_color = 0, total_colored_vertices = 0\<rparr>"
  let ?s0' = "\<lparr>r_vertices = reset_colors vs' n, current_color = 0, total_colored_vertices = 0\<rparr>"
  obtain t' w where o': "rlf_outer_loop n ?s0' = Some (t', w)"
    using r' unfolding RLF_coloring_def by (cases "rlf_outer_loop n ?s0'") auto
  have e': "r' = \<lparr>res_vertices = r_vertices t', res_colors = current_color t', res_warned = w\<rparr>"
    using r' unfolding RLF_coloring_def o' by simp
  have rs: "same_rlf_state ?s0' ?s0" unfolding same_rlf_state_def using sc by simp
  from rlf_outer_loop_sim[OF o'] rs obtain t where
    o: "rlf_outer_loop n ?s0 = Some (t, w)" and st: "same_rlf_state t' t" by auto
  have "RLF_coloring vs n =
      Some \<lparr>res_vertices = r_vertices t, res_colors = current_color t, res_warned = w\<rparr>"
    unfolding RLF_coloring_def o by simp
  then show ?thesis using st unfolding e' same_rlf_state_def by simp
qed

lemma RLF_untouched:
  assumes wf: "well_formed n vs" and r: "RLF_coloring vs n = Some r" and i: "i \<notin> {1..n}"
  shows "color (res_vertices r ! i) = color (vs ! i)"
proof -
  let ?s0 = "\<lparr>r_vertices = reset_colors vs n, current_color = 0, total_colored_vertices = 0\<rparr>"
  from rlf_outer_loop_correct[OF rlf_start_inv[OF wf]] obtain s' where
    o: "rlf_outer_loop n ?s0 = Some (s', False)"
    and k: "\<forall>i. i \<notin> {1..n} \<longrightarrow> color (r_vertices s' ! i) = color (r_vertices ?s0 ! i)" by blast
  have "res_vertices r = r_vertices s'" using r unfolding RLF_coloring_def o by auto
  then show ?thesis using k i reset_colors_untouched[OF i, of vs] by simp
qed

lemma RLF_rerun:
  assumes wf: "well_formed n vs"
  shows "\<exists>r1 r2. RLF_coloring vs n = Some r1 \<and> RLF_coloring (res_vertices r1) n = Some r2 \<and>
           map color (res_vertices r2) = map color (res_vertices r1) \<and>
           res_colors r2 = res_colors r1"
proof -
  from RLF_complete[OF wf] obtain r1 where r1: "RLF_coloring vs n = Some r1"
    and cc: "complete_coloring n vs (res_vertices r1) (res_colors r1)" by blast
  have g: "graph_of (res_vertices r1) = graph_of vs" using cc unfolding complete_coloring_def by blast
  have wf1: "well_formed n (res_vertices r1)" using well_formed_cong[OF g[symmetric] wf] .
  from RLF_complete[OF wf1] obtain r2 where r2: "RLF_coloring (res_vertices r1) n = Some r2" by blast
  have sc: "same_colors (reset_colors (res_vertices r1) n) (reset_colors vs n)"
    using reset_same[OF g] RLF_untouched[OF wf r1] by blast
  from RLF_coloring_sim[OF sc r2] r1 have
    "same_colors (res_vertices r2) (res_vertices r1) \<and> res_colors r2 = res_colors r1" by auto
  then show ?thesis using r1 r2 unfolding same_colors_def by blast
qed

section \<open>Determinism and independence of earlier state (claims C8 and C10)\<close>

lemma generic_greedy_recolored:
  assumes rc: "recolored n vs' vs" and srt: "std_sort_contract srt"
  shows "same_result (generic_greedy_coloring srt vs' n alg) (generic_greedy_coloring srt vs n alg)"
proof -
  have sc: "same_colors (reset_colors vs' n) (reset_colors vs n)"
    using reset_same rc unfolding recolored_def by blast
  from generic_greedy_sim[OF sc srt, of alg] show ?thesis
    unfolding same_result_def same_colors_def by blast
qed

lemma RLF_recolored:
  assumes wf: "well_formed n vs" and rc: "recolored n vs' vs"
  shows "\<exists>r r'. RLF_coloring vs n = Some r \<and> RLF_coloring vs' n = Some r' \<and> same_result r' r"
proof -
  have g: "graph_of vs' = graph_of vs" using rc unfolding recolored_def by blast
  have wf': "well_formed n vs'" using well_formed_cong[OF g[symmetric] wf] .
  from RLF_complete[OF wf'] obtain r' where r': "RLF_coloring vs' n = Some r'" by blast
  have sc: "same_colors (reset_colors vs' n) (reset_colors vs n)"
    using reset_same rc unfolding recolored_def by blast
  from RLF_coloring_sim[OF sc r'] obtain r where "RLF_coloring vs n = Some r"
    "same_colors (res_vertices r') (res_vertices r)" "res_colors r' = res_colors r" by blast
  then show ?thesis using r' unfolding same_result_def same_colors_def by blast
qed

lemma generic_greedy_leaves_recolored:
  assumes wf: "well_formed n vs" and srt: "std_sort_contract srt"
  shows "recolored n (res_vertices (generic_greedy_coloring srt vs n alg)) vs"
  unfolding recolored_def
  using generic_greedy_graph[OF wf srt] generic_greedy_untouched[OF wf srt] by blast

lemma RLF_leaves_recolored:
  assumes wf: "well_formed n vs" and r: "RLF_coloring vs n = Some r"
  shows "recolored n (res_vertices r) vs"
proof -
  from RLF_complete[OF wf] r have "complete_coloring n vs (res_vertices r) (res_colors r)" by auto
  then have "graph_of (res_vertices r) = graph_of vs" unfolding complete_coloring_def by blast
  then show ?thesis unfolding recolored_def using RLF_untouched[OF wf r] by blast
qed

text \<open>
  Claim C8. On a well-formed graph, running a driver a second time on the vertex vector
  that its first run left behind gives the same color to every vertex and the same number
  of colors. More generally the result of a driver does not depend on the colors that the
  vertices \<open>1..N\<close> hold at entry, whichever run left them: the driver resets them. The sort
  is a function, so that the same pointer list with the same degrees is sorted the same
  way both times.
\<close>

theorem C8_rerun_identical:
  assumes "well_formed n vs" and "std_sort_contract srt"
  shows "same_result (IDO_coloring srt (res_vertices (IDO_coloring srt vs n)) n)
           (IDO_coloring srt vs n) \<and>
         same_result (DSATUR_coloring srt (res_vertices (DSATUR_coloring srt vs n)) n)
           (DSATUR_coloring srt vs n) \<and>
         (\<exists>r1 r2. RLF_coloring vs n = Some r1 \<and> RLF_coloring (res_vertices r1) n = Some r2 \<and>
            same_result r2 r1) \<and>
         (\<forall>vs'. recolored n vs' vs \<longrightarrow>
            same_result (IDO_coloring srt vs' n) (IDO_coloring srt vs n) \<and>
            same_result (DSATUR_coloring srt vs' n) (DSATUR_coloring srt vs n) \<and>
            (\<exists>r r'. RLF_coloring vs n = Some r \<and> RLF_coloring vs' n = Some r' \<and>
               same_result r' r))"
proof -
  have a: "same_result (generic_greedy_coloring srt
              (res_vertices (generic_greedy_coloring srt vs n alg)) n alg)
            (generic_greedy_coloring srt vs n alg)" for alg
    using generic_greedy_recolored[OF generic_greedy_leaves_recolored[OF assms] assms(2)] .
  have b: "\<exists>r1 r2. RLF_coloring vs n = Some r1 \<and> RLF_coloring (res_vertices r1) n = Some r2 \<and>
            same_result r2 r1"
  proof -
    from RLF_complete[OF assms(1)] obtain r1 where r1: "RLF_coloring vs n = Some r1" by blast
    from RLF_recolored[OF assms(1) RLF_leaves_recolored[OF assms(1) r1]] r1
    show ?thesis by auto
  qed
  have c: "same_result (generic_greedy_coloring srt vs' n alg) (generic_greedy_coloring srt vs n alg)"
    if "recolored n vs' vs" for vs' alg
    using generic_greedy_recolored[OF that assms(2)] .
  have d: "\<exists>r r'. RLF_coloring vs n = Some r \<and> RLF_coloring vs' n = Some r' \<and> same_result r' r"
    if "recolored n vs' vs" for vs'
    using RLF_recolored[OF assms(1) that] .
  show ?thesis
    unfolding IDO_coloring_def DSATUR_coloring_def using a b c d by blast
qed

lemma four_cycle_used_recolored: "recolored 4 four_cycle_used four_cycle"
proof -
  have "color (four_cycle_used ! i) = color (four_cycle ! i)" if "i \<notin> {1..4}" for i
  proof -
    have "i \<noteq> 1" "i \<noteq> 3" using that by auto
    then show ?thesis unfolding four_cycle_used_def by simp
  qed
  moreover have "graph_of four_cycle_used = graph_of four_cycle"
    by code_simp
  ultimately show ?thesis unfolding recolored_def by blast
qed

theorem C8_rerun_identical_witness:
  "well_formed 4 four_cycle \<and> std_sort_contract stable_sort \<and>
   same_result (IDO_coloring stable_sort (res_vertices (IDO_coloring stable_sort four_cycle 4)) 4)
     (IDO_coloring stable_sort four_cycle 4) \<and>
   same_result
     (DSATUR_coloring stable_sort (res_vertices (DSATUR_coloring stable_sort four_cycle 4)) 4)
     (DSATUR_coloring stable_sort four_cycle 4) \<and>
   (\<exists>r1 r2. RLF_coloring four_cycle 4 = Some r1 \<and> RLF_coloring (res_vertices r1) 4 = Some r2 \<and>
      same_result r2 r1) \<and>
   recolored 4 four_cycle_used four_cycle \<and>
   map color four_cycle_used = [-1, 7, -1, 0, -1] \<and>
   same_result (IDO_coloring stable_sort four_cycle_used 4) (IDO_coloring stable_sort four_cycle 4) \<and>
   map color (res_vertices (IDO_coloring stable_sort four_cycle_used 4)) = [-1, 0, 1, 0, 1]"
proof -
  have w: "well_formed 4 four_cycle" by code_simp
  have u: "map color four_cycle_used = [-1, 7, -1, 0, -1]" by code_simp
  have c: "map color (res_vertices (IDO_coloring stable_sort four_cycle_used 4)) = [-1, 0, 1, 0, 1]"
    by code_simp
  show ?thesis
    using C8_rerun_identical[OF w stable_sort_contract] four_cycle_used_recolored
      w stable_sort_contract u c by blast
qed

lemma with_heuristics_recolored:
  assumes "length hs = length vs"
  shows "recolored n (with_heuristics vs hs) vs"
proof -
  have len: "length (with_heuristics vs hs) = length vs"
    unfolding with_heuristics_def using assms by simp
  have nth: "with_heuristics vs hs ! i = (vs ! i)\<lparr>heuristic_value := hs ! i\<rparr>" if "i < length vs" for i
    unfolding with_heuristics_def using that assms by simp
  have g: "graph_of (with_heuristics vs hs) = graph_of vs"
    unfolding graph_of_def
  proof (rule nth_equalityI)
    show "length (map (\<lambda>v. (vertex_id v, degree v, neighbors v)) (with_heuristics vs hs)) =
          length (map (\<lambda>v. (vertex_id v, degree v, neighbors v)) vs)" using len by simp
  next
    fix i assume "i < length (map (\<lambda>v. (vertex_id v, degree v, neighbors v)) (with_heuristics vs hs))"
    then have il: "i < length vs" using len by simp
    then show "map (\<lambda>v. (vertex_id v, degree v, neighbors v)) (with_heuristics vs hs) ! i =
               map (\<lambda>v. (vertex_id v, degree v, neighbors v)) vs ! i"
      using nth[OF il] len by simp
  qed
  have "color (with_heuristics vs hs ! i) = color (vs ! i)" for i
  proof (cases "i < length vs")
    case True
    then show ?thesis using nth by simp
  next
    case False
    then have "length (with_heuristics vs hs) \<le> i" using len by simp
    from nth_beyond_eq[OF len this] show ?thesis by simp
  qed
  then show ?thesis unfolding recolored_def using g by blast
qed

text \<open>
  Claim C10. On a well-formed graph the coloring and the number of colors that a driver
  returns do not depend on the heuristic values that the vertices hold at entry: with any
  list of values in their place the result has the same colors and the same count.
\<close>

theorem C10_heuristic_independent:
  assumes "well_formed n vs" and "std_sort_contract srt" and "length hs = length vs"
  shows "same_result (IDO_coloring srt (with_heuristics vs hs) n) (IDO_coloring srt vs n) \<and>
         same_result (DSATUR_coloring srt (with_heuristics vs hs) n) (DSATUR_coloring srt vs n) \<and>
         (\<exists>r r'. RLF_coloring vs n = Some r \<and> RLF_coloring (with_heuristics vs hs) n = Some r' \<and>
            same_result r' r)"
proof -
  note rc = with_heuristics_recolored[OF assms(3), of n]
  have a: "same_result (generic_greedy_coloring srt (with_heuristics vs hs) n alg)
             (generic_greedy_coloring srt vs n alg)" for alg
    using generic_greedy_recolored[OF rc assms(2)] .
  show ?thesis
    unfolding IDO_coloring_def DSATUR_coloring_def
    using a RLF_recolored[OF assms(1) rc] by blast
qed

theorem C10_heuristic_independent_witness:
  "well_formed 4 four_cycle \<and> std_sort_contract stable_sort \<and>
   length [9, -3, 100, 5, 0 :: int] = length four_cycle \<and>
   map heuristic_value (with_heuristics four_cycle [9, -3, 100, 5, 0]) = [9, -3, 100, 5, 0] \<and>
   same_result (IDO_coloring stable_sort (with_heuristics four_cycle [9, -3, 100, 5, 0]) 4)
     (IDO_coloring stable_sort four_cycle 4) \<and>
   same_result (DSATUR_coloring stable_sort (with_heuristics four_cycle [9, -3, 100, 5, 0]) 4)
     (DSATUR_coloring stable_sort four_cycle 4) \<and>
   (\<exists>r r'. RLF_coloring four_cycle 4 = Some r \<and>
      RLF_coloring (with_heuristics four_cycle [9, -3, 100, 5, 0]) 4 = Some r' \<and>
      same_result r' r) \<and>
   map color (res_vertices (IDO_coloring stable_sort
      (with_heuristics four_cycle [9, -3, 100, 5, 0]) 4)) = [-1, 0, 1, 0, 1]"
proof -
  have w: "well_formed 4 four_cycle" by code_simp
  have l: "length [9, -3, 100, 5, 0 :: int] = length four_cycle" by code_simp
  have h: "map heuristic_value (with_heuristics four_cycle [9, -3, 100, 5, 0]) = [9, -3, 100, 5, 0]"
    by code_simp
  have c: "map color (res_vertices (IDO_coloring stable_sort
      (with_heuristics four_cycle [9, -3, 100, 5, 0]) 4)) = [-1, 0, 1, 0, 1]" by code_simp
  show ?thesis
    using C10_heuristic_independent[OF w stable_sort_contract l] w stable_sort_contract l h c
    by blast
qed

end
